theory Spec2Isabelle
  imports Main "HOL-Library.Multiset"
begin

section \<open>Batcher: \<open>chunk\<close> (etl.py, lines 68-76)\<close>

text \<open>
  The generator \<^verbatim>\<open>chunk(iterable, size)\<close> appends each element to a buffer,
  yields the buffer as soon as \<^verbatim>\<open>len(buf) >= size\<close> and restarts with an empty
  buffer; after the loop it yields a non-empty rest. The list of yielded buffers is the
  value of the model; \<open>size\<close> is a Python integer, so it is an \<open>int\<close> here and the
  comparison is the source's one (for \<open>size \<le> 0\<close> every element is yielded alone).
\<close>

fun chunk_loop :: "'a list \<Rightarrow> int \<Rightarrow> 'a list \<Rightarrow> 'a list list" where
  "chunk_loop [] sz buf = (if buf \<noteq> [] then [buf] else [])"
| "chunk_loop (x # xs) sz buf =
     (let buf' = buf @ [x]
      in if int (length buf') \<ge> sz then buf' # chunk_loop xs sz []
         else chunk_loop xs sz buf')"

definition chunk :: "'a list \<Rightarrow> int \<Rightarrow> 'a list list" where
  "chunk iterable sz = chunk_loop iterable sz []"

definition BATCH_SIZE :: int where
  "BATCH_SIZE = 1000"

lemma concat_chunk_loop: "concat (chunk_loop xs sz buf) = buf @ xs"
  by (induction xs arbitrary: buf) (auto simp: Let_def)

lemma concat_chunk: "concat (chunk xs sz) = xs"
  by (simp add: chunk_def concat_chunk_loop)

lemma lengths_chunk_loop:
  "0 < n \<Longrightarrow> length buf < n \<Longrightarrow>
   map length (chunk_loop xs (int n) buf) =
     replicate ((length buf + length xs) div n) n @
     (if (length buf + length xs) mod n = 0 then [] else [(length buf + length xs) mod n])"
proof (induction xs arbitrary: buf)
  case Nil
  then show ?case by simp
next
  case (Cons x xs)
  show ?case
  proof (cases "Suc (length buf) = n")
    case True
    have d: "(n + length xs) div n = Suc (length xs div n)"
      using Cons.prems(1) div_add_self1 [of n "length xs"] by simp
    have m: "(n + length xs) mod n = length xs mod n"
      by simp
    have "map length (chunk_loop (x # xs) (int n) buf) =
          n # map length (chunk_loop xs (int n) [])"
      using True by (simp add: Let_def)
    also have "map length (chunk_loop xs (int n) []) =
          replicate (length xs div n) n @
          (if length xs mod n = 0 then [] else [length xs mod n])"
      using Cons.IH [of "[]"] Cons.prems(1) by simp
    finally have c: "map length (chunk_loop (x # xs) (int n) buf) =
          replicate (Suc (length xs div n)) n @
          (if length xs mod n = 0 then [] else [length xs mod n])"
      by simp
    have e: "length buf + length (x # xs) = n + length xs"
      using True by simp
    show ?thesis
      unfolding e d m by (rule c)
  next
    case False
    then have lt: "length (buf @ [x]) < n"
      using Cons.prems(2) by simp
    have "map length (chunk_loop (x # xs) (int n) buf) =
          map length (chunk_loop xs (int n) (buf @ [x]))"
      using lt by (simp add: Let_def)
    then show ?thesis
      using Cons.IH [OF Cons.prems(1) lt] by simp
  qed
qed

text \<open>
  Claim C4. For a positive \<open>sz\<close>, the chunks concatenate to the input; their
  lengths are \<open>length xs div sz\<close> times \<open>sz\<close>, followed by the rest
  \<open>length xs mod sz\<close> when that is not zero (so the rest is non-empty and shorter
  than \<open>sz\<close>); and the empty input yields no chunk.
\<close>

theorem chunk_batches:
  assumes "0 < sz"
  shows "concat (chunk xs sz) = xs \<and>
         map length (chunk xs sz) =
           replicate (length xs div nat sz) (nat sz) @
           (if length xs mod nat sz = 0 then [] else [length xs mod nat sz]) \<and>
         chunk ([] :: 'a list) sz = []"
proof -
  have "0 < nat sz" using assms by simp
  then have "map length (chunk_loop xs (int (nat sz)) []) =
           replicate (length xs div nat sz) (nat sz) @
           (if length xs mod nat sz = 0 then [] else [length xs mod nat sz])"
    using lengths_chunk_loop [of "nat sz" "[]" xs] by simp
  moreover have "int (nat sz) = sz" using assms by simp
  ultimately show ?thesis
    by (simp add: chunk_def concat_chunk_loop)
qed

text \<open>The spec's example: 2500 records in batches of 1000.\<close>

theorem chunk_batches_witness:
  "(0::int) < 1000 \<and> concat (chunk [1..2500] 1000) = [1..2500] \<and>
   map length (chunk [1..2500] 1000) = [1000, 1000, 500] \<and>
   chunk ([] :: int list) 1000 = []"
proof -
  have h: "(0::int) < 1000" by simp
  have r: "replicate 2 (1000::nat) = [1000, 1000]"
    by (simp add: numeral_2_eq_2)
  show ?thesis
    using chunk_batches [OF h, of "[1..2500]"] r by simp
qed


section \<open>Failures and the two stores as seen by the probes\<close>

text \<open>
  Every raise of the source is a value: a function that can raise returns
  \<open>exn + 'a\<close>, with \<open>Inl\<close> for the exception. The three kinds are Python's
  \<^verbatim>\<open>KeyError\<close>, a failure reported by the relational source (psycopg2, SQLAlchemy)
  and a failure reported by the graph store (the neo4j driver). All of them are
  subclasses of \<^verbatim>\<open>Exception\<close>, so \<^verbatim>\<open>except Exception\<close> catches each.
\<close>

datatype exn = KeyError string | SourceError string | GraphError string

text \<open>
  Sequential calls: the first one that raises ends the sequence with its exception.
\<close>

fun in_sequence :: "(exn + unit) list \<Rightarrow> exn + unit" where
  "in_sequence [] = Inr ()"
| "in_sequence (c # cs) = (case c of Inl e \<Rightarrow> Inl e | Inr _ \<Rightarrow> in_sequence cs)"

text \<open>
  A \<^verbatim>\<open>with\<close> block: when entering raises, nothing else runs; otherwise the
  body runs and the exit handler runs whatever the body did; an exception of the exit
  handler replaces the body's.
\<close>

definition with_block :: "exn + unit \<Rightarrow> exn + unit \<Rightarrow> exn + unit \<Rightarrow> exn + unit" where
  "with_block enter body exit =
     (case enter of
        Inl e \<Rightarrow> Inl e
      | Inr _ \<Rightarrow>
          (case body of
             Inl e \<Rightarrow> (case exit of Inl e' \<Rightarrow> Inl e' | Inr _ \<Rightarrow> Inl e)
           | Inr _ \<Rightarrow> exit))"

text \<open>
  What the relational source answers to the calls of one liveness round trip
  (\<^verbatim>\<open>pg_ok\<close> in main.py), and what the graph store answers to the calls of one
  (\<^verbatim>\<open>neo4j_ok\<close>). The stores are outside the program, so their answers are inputs.
\<close>

record pg_answers =
  pg_connect :: "exn + unit"
  pg_cursor :: "exn + unit"
  pg_execute :: "exn + unit"
  pg_fetchone :: "exn + unit"
  pg_cursor_close :: "exn + unit"
  pg_close :: "exn + unit"

record neo4j_answers =
  neo_driver :: "exn + unit"
  neo_session :: "exn + unit"
  neo_run :: "exn + unit"
  neo_consume :: "exn + unit"
  neo_session_close :: "exn + unit"
  neo_driver_close :: "exn + unit"

section \<open>Liveness endpoint (main.py)\<close>

text \<open>The body of the \<^verbatim>\<open>try\<close> block of \<^verbatim>\<open>pg_ok\<close>, up to \<^verbatim>\<open>return True\<close>.\<close>

definition pg_round_trip :: "pg_answers \<Rightarrow> exn + unit" where
  "pg_round_trip pg =
     in_sequence
       [pg_connect pg,
        with_block (pg_cursor pg) (in_sequence [pg_execute pg, pg_fetchone pg])
          (pg_cursor_close pg),
        pg_close pg]"

definition pg_ok :: "pg_answers \<Rightarrow> exn + bool" where
  "pg_ok pg = (case pg_round_trip pg of Inl e \<Rightarrow> Inr False | Inr _ \<Rightarrow> Inr True)"

text \<open>The body of the \<^verbatim>\<open>try\<close> block of \<^verbatim>\<open>neo4j_ok\<close>.\<close>

definition neo4j_round_trip :: "neo4j_answers \<Rightarrow> exn + unit" where
  "neo4j_round_trip neo =
     with_block (neo_driver neo)
       (with_block (neo_session neo) (in_sequence [neo_run neo, neo_consume neo])
          (neo_session_close neo))
       (neo_driver_close neo)"

definition neo4j_ok :: "neo4j_answers \<Rightarrow> exn + bool" where
  "neo4j_ok neo = (case neo4j_round_trip neo of Inl e \<Rightarrow> Inr False | Inr _ \<Rightarrow> Inr True)"

text \<open>
  \<^verbatim>\<open>return {"ok": pg_ok() and neo4j_ok()}\<close>: Python's \<^verbatim>\<open>and\<close> evaluates its
  second operand only when the first is true. The returned dict is an association
  list.
\<close>

definition health :: "pg_answers \<Rightarrow> neo4j_answers \<Rightarrow> exn + (string \<times> bool) list" where
  "health pg neo =
     (case pg_ok pg of
        Inl e \<Rightarrow> Inl e
      | Inr a \<Rightarrow>
          if a then (case neo4j_ok neo of Inl e \<Rightarrow> Inl e | Inr b \<Rightarrow> Inr [(''ok'', b)])
          else Inr [(''ok'', False)])"

text \<open>A round trip succeeds when none of its calls raises.\<close>

lemma in_sequence_ok: "(in_sequence cs = Inr ()) = (list_all (\<lambda>c. c = Inr ()) cs)"
  by (induction cs) (auto split: sum.splits)

lemma with_block_ok:
  "(with_block a b c = Inr ()) = (a = Inr () \<and> b = Inr () \<and> c = Inr ())"
  by (auto simp: with_block_def split: sum.splits)

lemma pg_round_trip_ok:
  "(pg_round_trip pg = Inr ()) =
   (pg_connect pg = Inr () \<and> pg_cursor pg = Inr () \<and> pg_execute pg = Inr () \<and>
    pg_fetchone pg = Inr () \<and> pg_cursor_close pg = Inr () \<and> pg_close pg = Inr ())"
  by (simp add: pg_round_trip_def in_sequence_ok with_block_ok del: in_sequence.simps)

lemma neo4j_round_trip_ok:
  "(neo4j_round_trip neo = Inr ()) =
   (neo_driver neo = Inr () \<and> neo_session neo = Inr () \<and> neo_run neo = Inr () \<and>
    neo_consume neo = Inr () \<and> neo_session_close neo = Inr () \<and>
    neo_driver_close neo = Inr ())"
  by (simp add: neo4j_round_trip_def in_sequence_ok with_block_ok del: in_sequence.simps)

lemma pg_ok_value: "pg_ok pg = Inr (pg_round_trip pg = Inr ())"
  by (cases "pg_round_trip pg") (simp_all add: pg_ok_def)

lemma neo4j_ok_value: "neo4j_ok neo = Inr (neo4j_round_trip neo = Inr ())"
  by (cases "neo4j_round_trip neo") (simp_all add: neo4j_ok_def)

text \<open>
  Claim C10. Neither probe function propagates an exception: each returns the
  boolean "every call of my round trip succeeded". The endpoint therefore always
  returns the dict, and its \<open>ok\<close> entry is true exactly when every call of both round
  trips succeeded.
\<close>

theorem health_boolean:
  "pg_ok pg =
     Inr (pg_connect pg = Inr () \<and> pg_cursor pg = Inr () \<and> pg_execute pg = Inr () \<and>
          pg_fetchone pg = Inr () \<and> pg_cursor_close pg = Inr () \<and> pg_close pg = Inr ()) \<and>
   neo4j_ok neo =
     Inr (neo_driver neo = Inr () \<and> neo_session neo = Inr () \<and> neo_run neo = Inr () \<and>
          neo_consume neo = Inr () \<and> neo_session_close neo = Inr () \<and>
          neo_driver_close neo = Inr ()) \<and>
   health pg neo =
     Inr [(''ok'', pg_round_trip pg = Inr () \<and> neo4j_round_trip neo = Inr ())]"
proof -
  have "health pg neo =
     Inr [(''ok'', pg_round_trip pg = Inr () \<and> neo4j_round_trip neo = Inr ())]"
    by (cases "pg_round_trip pg = Inr ()")
      (simp_all add: health_def pg_ok_value neo4j_ok_value)
  then show ?thesis
    by (simp only: pg_ok_value neo4j_ok_value pg_round_trip_ok neo4j_round_trip_ok
        simp_thms)
qed


section \<open>Readiness gate (etl.py, lines 26-50)\<close>

text \<open>
  Both waiting functions are the same loop around a different attempt. Time is a
  logical clock counted in the unit of \<^verbatim>\<open>time.sleep(1)\<close>: an attempt started at
  time \<open>t\<close> gets the store's answers of that moment and lasts a duration
  \<open>d \<ge> 0\<close> (both are inputs), \<^verbatim>\<open>time.time()\<close> is read when the attempt has
  failed, and the sleep advances the clock by exactly one unit. The loop returns the
  outcome together with the time of its return.
\<close>

definition WAIT_TIMEOUT_SEC :: int where
  "WAIT_TIMEOUT_SEC = 120"

function wait_loop ::
  "(int \<Rightarrow> (exn + unit) \<times> nat) \<Rightarrow> int \<Rightarrow> int \<Rightarrow> int \<Rightarrow> (exn + unit) \<times> int" where
  "wait_loop attempt timeout start now =
     (case attempt now of
        (Inr u, d) \<Rightarrow> (Inr (), now + int d)
      | (Inl e, d) \<Rightarrow>
          if now + int d - start > timeout then (Inl e, now + int d)
          else wait_loop attempt timeout start (now + int d + 1))"
  by pat_completeness auto
termination
  by (relation "measure (\<lambda>(attempt, timeout, start, now). nat (start + timeout + 1 - now))")
    auto

text \<open>
  \<^verbatim>\<open>wait_for_postgres\<close> connects and closes the connection;
  \<^verbatim>\<open>wait_for_neo4j\<close> runs the same nested \<^verbatim>\<open>with\<close> blocks as the
  liveness probe. \<open>start\<close> is the clock at the call.
\<close>

definition pg_attempt :: "pg_answers \<Rightarrow> exn + unit" where
  "pg_attempt pg = in_sequence [pg_connect pg, pg_close pg]"

definition wait_for_postgres ::
  "(int \<Rightarrow> pg_answers \<times> nat) \<Rightarrow> int \<Rightarrow> int \<Rightarrow> (exn + unit) \<times> int" where
  "wait_for_postgres pg timeout start =
     wait_loop (\<lambda>t. (pg_attempt (fst (pg t)), snd (pg t))) timeout start start"

definition wait_for_neo4j ::
  "(int \<Rightarrow> neo4j_answers \<times> nat) \<Rightarrow> int \<Rightarrow> int \<Rightarrow> (exn + unit) \<times> int" where
  "wait_for_neo4j neo timeout start =
     wait_loop (\<lambda>t. (neo4j_round_trip (fst (neo t)), snd (neo t))) timeout start start"

text \<open>
  The retry schedule of the spec's \<^verbatim>\<open>await_ready\<close>, written out to compare the
  loop with it: attempt number \<open>n\<close> is made at \<open>attempt_time attempt start n\<close>, the
  first at \<open>start\<close>, each next one exactly one unit (the sleep) after the end of the
  failed attempt before it.
  \<open>attempt_end\<close> is the time at which attempt \<open>n\<close> ends, and
  \<open>retried attempt timeout start n\<close> says that the attempts \<open>0, \<dots>, n - 1\<close> all
  failed and each ended with an elapsed time of at most \<open>timeout\<close>, so that the
  loop slept and went on to the next one.
\<close>

fun attempt_time :: "(int \<Rightarrow> (exn + unit) \<times> nat) \<Rightarrow> int \<Rightarrow> nat \<Rightarrow> int" where
  "attempt_time attempt start 0 = start"
| "attempt_time attempt start (Suc n) =
     attempt_time attempt start n + int (snd (attempt (attempt_time attempt start n))) + 1"

definition attempt_end :: "(int \<Rightarrow> (exn + unit) \<times> nat) \<Rightarrow> int \<Rightarrow> nat \<Rightarrow> int" where
  "attempt_end attempt start n =
     attempt_time attempt start n + int (snd (attempt (attempt_time attempt start n)))"

definition retried :: "(int \<Rightarrow> (exn + unit) \<times> nat) \<Rightarrow> int \<Rightarrow> int \<Rightarrow> nat \<Rightarrow> bool" where
  "retried attempt timeout start n =
     (\<forall>i<n. (\<exists>e. fst (attempt (attempt_time attempt start i)) = Inl e) \<and>
            attempt_end attempt start i - start \<le> timeout)"

lemma retried_Suc:
  "retried a timeout start (Suc n) =
     (retried a timeout start n \<and> (\<exists>e. fst (a (attempt_time a start n)) = Inl e) \<and>
      attempt_end a start n - start \<le> timeout)"
  by (auto simp: retried_def less_Suc_eq)

lemma retried_0: "retried a timeout start 0"
  by (simp add: retried_def)

lemma wait_loop_retried:
  "retried a timeout start n \<Longrightarrow>
   wait_loop a timeout start start = wait_loop a timeout start (attempt_time a start n)"
proof (induction n)
  case 0
  show ?case by simp
next
  case (Suc n)
  then have r: "retried a timeout start n"
    and f: "\<exists>e. fst (a (attempt_time a start n)) = Inl e"
    and w: "attempt_end a start n - start \<le> timeout"
    by (simp_all add: retried_Suc)
  obtain e where e: "fst (a (attempt_time a start n)) = Inl e" using f by blast
  define d where "d = snd (a (attempt_time a start n))"
  have a: "a (attempt_time a start n) = (Inl e, d)"
    using e d_def by (simp add: prod_eq_iff)
  have "wait_loop a timeout start (attempt_time a start n) =
        wait_loop a timeout start (attempt_time a start n + int d + 1)"
    using a w by (simp add: attempt_end_def)
  then show ?case
    using Suc.IH [OF r] by (simp add: d_def)
qed

lemma wait_loop_returns:
  assumes "retried a timeout start n" and "fst (a (attempt_time a start n)) = Inr ()"
  shows "wait_loop a timeout start start = (Inr (), attempt_end a start n)"
proof -
  have "wait_loop a timeout start (attempt_time a start n) = (Inr (), attempt_end a start n)"
    using assms(2) by (cases "a (attempt_time a start n)") (simp add: attempt_end_def)
  then show ?thesis using wait_loop_retried [OF assms(1)] by simp
qed

lemma wait_loop_raises:
  assumes "retried a timeout start n" and "fst (a (attempt_time a start n)) = Inl e"
    and "timeout < attempt_end a start n - start"
  shows "wait_loop a timeout start start = (Inl e, attempt_end a start n)"
proof -
  have "wait_loop a timeout start (attempt_time a start n) = (Inl e, attempt_end a start n)"
    using assms(2,3) by (cases "a (attempt_time a start n)") (simp add: attempt_end_def)
  then show ?thesis using wait_loop_retried [OF assms(1)] by simp
qed

lemma attempt_time_grows: "start + int n \<le> attempt_time a start n"
  by (induction n) simp_all

lemma wait_loop_gives_up:
  assumes "\<forall>t. \<exists>e. fst (a t) = Inl e" and "\<forall>t. snd (a t) \<le> D" and "0 \<le> timeout"
  shows "\<exists>n e. retried a timeout start n \<and> fst (a (attempt_time a start n)) = Inl e \<and>
           wait_loop a timeout start start = (Inl e, attempt_end a start n) \<and>
           timeout < attempt_end a start n - start \<and>
           attempt_end a start n - start \<le> timeout + 1 + int D"
proof -
  let ?late = "\<lambda>n. timeout < attempt_end a start n - start"
  have ex: "?late (nat timeout + 1)"
    using attempt_time_grows [of start "nat timeout + 1" a] assms(3)
    by (simp add: attempt_end_def)
  define n where "n = (LEAST n. ?late n)"
  have late: "?late n" unfolding n_def using ex by (rule LeastI)
  have early: "\<not> ?late i" if "i < n" for i
    using that unfolding n_def by (rule not_less_Least)
  have r: "retried a timeout start n"
    unfolding retried_def using early assms(1) by (simp add: not_less)
  obtain e where e: "fst (a (attempt_time a start n)) = Inl e" using assms(1) by blast
  have bound: "attempt_end a start n - start \<le> timeout + 1 + int D"
  proof (cases n)
    case 0
    have "int (snd (a start)) \<le> int D" using assms(2) by simp
    then show ?thesis using 0 assms(3) by (simp add: attempt_end_def)
  next
    case (Suc m)
    have "attempt_end a start m - start \<le> timeout" using early [of m] Suc by simp
    moreover have "attempt_end a start n = attempt_end a start m + 1 + int (snd (a (attempt_time a start n)))"
      using Suc by (simp add: attempt_end_def)
    moreover have "int (snd (a (attempt_time a start n))) \<le> int D" using assms(2) by simp
    ultimately show ?thesis by linarith
  qed
  show ?thesis
    using r e wait_loop_raises [OF r e late] late bound by blast
qed


lemma not_Inr_unit: "(x :: exn + unit) \<noteq> Inr () \<Longrightarrow> \<exists>e. x = Inl e"
  by (cases x) simp_all

text \<open>
  Claim C5, for both waiting functions. (1) When the attempts before attempt \<open>n\<close>
  were retried and attempt \<open>n\<close> succeeds, the function returns at the end of that
  attempt: a success ends the wait at once, also after failures. (2) When the
  attempts before attempt \<open>n\<close> were retried and attempt \<open>n\<close> fails with an elapsed
  time above the timeout, the function raises the exception of that attempt at that
  time: it re-raises the last failure, and never while the elapsed time is within the
  timeout. (1) and (2) fix the result for every behaviour of the store. (3) When every
  attempt fails (and lasts at most \<open>D\<close>), such an \<open>n\<close> exists: the function
  raises, with an elapsed time above the timeout and at most the timeout plus the
  one-unit sleep plus the duration of the last attempt.
\<close>

theorem readiness_timeout:
  fixes pg :: "int \<Rightarrow> pg_answers \<times> nat" and neo :: "int \<Rightarrow> neo4j_answers \<times> nat"
  defines "p \<equiv> \<lambda>t. (pg_attempt (fst (pg t)), snd (pg t))"
    and "q \<equiv> \<lambda>t. (neo4j_round_trip (fst (neo t)), snd (neo t))"
  shows
    "(\<forall>n. retried p timeout start n \<and> fst (p (attempt_time p start n)) = Inr () \<longrightarrow>
        wait_for_postgres pg timeout start = (Inr (), attempt_end p start n)) \<and>
     (\<forall>n e. retried p timeout start n \<and> fst (p (attempt_time p start n)) = Inl e \<and>
        timeout < attempt_end p start n - start \<longrightarrow>
        wait_for_postgres pg timeout start = (Inl e, attempt_end p start n)) \<and>
     (\<forall>D. 0 \<le> timeout \<and> (\<forall>t. fst (p t) \<noteq> Inr () \<and> snd (p t) \<le> D) \<longrightarrow>
        (\<exists>n e. retried p timeout start n \<and> fst (p (attempt_time p start n)) = Inl e \<and>
           wait_for_postgres pg timeout start = (Inl e, attempt_end p start n) \<and>
           timeout < attempt_end p start n - start \<and>
           attempt_end p start n - start \<le> timeout + 1 + int D)) \<and>
     (\<forall>n. retried q timeout start n \<and> fst (q (attempt_time q start n)) = Inr () \<longrightarrow>
        wait_for_neo4j neo timeout start = (Inr (), attempt_end q start n)) \<and>
     (\<forall>n e. retried q timeout start n \<and> fst (q (attempt_time q start n)) = Inl e \<and>
        timeout < attempt_end q start n - start \<longrightarrow>
        wait_for_neo4j neo timeout start = (Inl e, attempt_end q start n)) \<and>
     (\<forall>D. 0 \<le> timeout \<and> (\<forall>t. fst (q t) \<noteq> Inr () \<and> snd (q t) \<le> D) \<longrightarrow>
        (\<exists>n e. retried q timeout start n \<and> fst (q (attempt_time q start n)) = Inl e \<and>
           wait_for_neo4j neo timeout start = (Inl e, attempt_end q start n) \<and>
           timeout < attempt_end q start n - start \<and>
           attempt_end q start n - start \<le> timeout + 1 + int D))"
proof -
  have wp: "wait_for_postgres pg timeout start = wait_loop p timeout start start"
    by (simp add: wait_for_postgres_def p_def)
  have wq: "wait_for_neo4j neo timeout start = wait_loop q timeout start start"
    by (simp add: wait_for_neo4j_def q_def)
  have gp: "\<exists>n e. retried p timeout start n \<and> fst (p (attempt_time p start n)) = Inl e \<and>
           wait_loop p timeout start start = (Inl e, attempt_end p start n) \<and>
           timeout < attempt_end p start n - start \<and>
           attempt_end p start n - start \<le> timeout + 1 + int D"
    if "0 \<le> timeout" "\<forall>t. fst (p t) \<noteq> Inr () \<and> snd (p t) \<le> D" for D
    by (rule wait_loop_gives_up) (use that in \<open>simp_all add: not_Inr_unit\<close>)
  have gq: "\<exists>n e. retried q timeout start n \<and> fst (q (attempt_time q start n)) = Inl e \<and>
           wait_loop q timeout start start = (Inl e, attempt_end q start n) \<and>
           timeout < attempt_end q start n - start \<and>
           attempt_end q start n - start \<le> timeout + 1 + int D"
    if "0 \<le> timeout" "\<forall>t. fst (q t) \<noteq> Inr () \<and> snd (q t) \<le> D" for D
    by (rule wait_loop_gives_up) (use that in \<open>simp_all add: not_Inr_unit\<close>)
  have c1: "\<forall>n. retried p timeout start n \<and> fst (p (attempt_time p start n)) = Inr () \<longrightarrow>
        wait_loop p timeout start start = (Inr (), attempt_end p start n)"
    by (simp add: wait_loop_returns del: wait_loop.simps)
  have c2: "\<forall>n e. retried p timeout start n \<and> fst (p (attempt_time p start n)) = Inl e \<and>
        timeout < attempt_end p start n - start \<longrightarrow>
        wait_loop p timeout start start = (Inl e, attempt_end p start n)"
    by (simp add: wait_loop_raises del: wait_loop.simps)
  have c3: "\<forall>D. 0 \<le> timeout \<and> (\<forall>t. fst (p t) \<noteq> Inr () \<and> snd (p t) \<le> D) \<longrightarrow>
        (\<exists>n e. retried p timeout start n \<and> fst (p (attempt_time p start n)) = Inl e \<and>
           wait_loop p timeout start start = (Inl e, attempt_end p start n) \<and>
           timeout < attempt_end p start n - start \<and>
           attempt_end p start n - start \<le> timeout + 1 + int D)"
    using gp by blast
  have c4: "\<forall>n. retried q timeout start n \<and> fst (q (attempt_time q start n)) = Inr () \<longrightarrow>
        wait_loop q timeout start start = (Inr (), attempt_end q start n)"
    by (simp add: wait_loop_returns del: wait_loop.simps)
  have c5: "\<forall>n e. retried q timeout start n \<and> fst (q (attempt_time q start n)) = Inl e \<and>
        timeout < attempt_end q start n - start \<longrightarrow>
        wait_loop q timeout start start = (Inl e, attempt_end q start n)"
    by (simp add: wait_loop_raises del: wait_loop.simps)
  have c6: "\<forall>D. 0 \<le> timeout \<and> (\<forall>t. fst (q t) \<noteq> Inr () \<and> snd (q t) \<le> D) \<longrightarrow>
        (\<exists>n e. retried q timeout start n \<and> fst (q (attempt_time q start n)) = Inl e \<and>
           wait_loop q timeout start start = (Inl e, attempt_end q start n) \<and>
           timeout < attempt_end q start n - start \<and>
           attempt_end q start n - start \<le> timeout + 1 + int D)"
    using gq by blast
  show ?thesis
    unfolding wp wq by (intro conjI c1 c2 c3 c4 c5 c6)
qed


text \<open>
  Two scenarios with the default timeout and attempts of duration 0: a store that
  starts serving at time 2 (the functions return at time 2, after two failed attempts
  and two sleeps), and a store that is down for good (the functions raise at time
  121).
\<close>

definition pg_refusing :: pg_answers where
  "pg_refusing =
     \<lparr>pg_connect = Inl (SourceError ''connection refused''), pg_cursor = Inr (),
      pg_execute = Inr (), pg_fetchone = Inr (), pg_cursor_close = Inr (),
      pg_close = Inr ()\<rparr>"

definition pg_serving :: pg_answers where
  "pg_serving =
     \<lparr>pg_connect = Inr (), pg_cursor = Inr (), pg_execute = Inr (), pg_fetchone = Inr (),
      pg_cursor_close = Inr (), pg_close = Inr ()\<rparr>"

definition neo4j_unavailable :: neo4j_answers where
  "neo4j_unavailable =
     \<lparr>neo_driver = Inr (), neo_session = Inr (),
      neo_run = Inl (GraphError ''service unavailable''), neo_consume = Inr (),
      neo_session_close = Inr (), neo_driver_close = Inr ()\<rparr>"

definition neo4j_serving :: neo4j_answers where
  "neo4j_serving =
     \<lparr>neo_driver = Inr (), neo_session = Inr (), neo_run = Inr (), neo_consume = Inr (),
      neo_session_close = Inr (), neo_driver_close = Inr ()\<rparr>"

definition pg_down :: "int \<Rightarrow> pg_answers \<times> nat" where
  "pg_down t = (pg_refusing, 0)"

definition neo4j_down :: "int \<Rightarrow> neo4j_answers \<times> nat" where
  "neo4j_down t = (neo4j_unavailable, 0)"

definition pg_up_at_2 :: "int \<Rightarrow> pg_answers \<times> nat" where
  "pg_up_at_2 t = (if t < 2 then pg_refusing else pg_serving, 0)"

definition neo4j_up_at_2 :: "int \<Rightarrow> neo4j_answers \<times> nat" where
  "neo4j_up_at_2 t = (if t < 2 then neo4j_unavailable else neo4j_serving, 0)"

lemma sample_attempts [simp]:
  "pg_attempt pg_refusing = Inl (SourceError ''connection refused'')"
  "pg_attempt pg_serving = Inr ()"
  "neo4j_round_trip neo4j_unavailable = Inl (GraphError ''service unavailable'')"
  "neo4j_round_trip neo4j_serving = Inr ()"
  by (simp_all add: pg_attempt_def pg_refusing_def pg_serving_def neo4j_round_trip_def
      neo4j_unavailable_def neo4j_serving_def with_block_def)

theorem readiness_timeout_witness:
  "wait_for_postgres pg_up_at_2 WAIT_TIMEOUT_SEC 0 = (Inr (), 2) \<and>
   wait_for_neo4j neo4j_up_at_2 WAIT_TIMEOUT_SEC 0 = (Inr (), 2) \<and>
   (\<exists>e. wait_for_postgres pg_down WAIT_TIMEOUT_SEC 0 = (Inl e, 121)) \<and>
   (\<exists>e. wait_for_neo4j neo4j_down WAIT_TIMEOUT_SEC 0 = (Inl e, 121))"
proof -
  note up = readiness_timeout [where pg = pg_up_at_2 and neo = neo4j_up_at_2
      and timeout = WAIT_TIMEOUT_SEC and start = 0]
  note down = readiness_timeout [where pg = pg_down and neo = neo4j_down
      and timeout = WAIT_TIMEOUT_SEC and start = 0]
  let ?p = "\<lambda>t. (pg_attempt (fst (pg_up_at_2 t)), snd (pg_up_at_2 t))"
  let ?q = "\<lambda>t. (neo4j_round_trip (fst (neo4j_up_at_2 t)), snd (neo4j_up_at_2 t))"
  have p0: "?p 0 = (Inl (SourceError ''connection refused''), 0)"
    and p1: "?p 1 = (Inl (SourceError ''connection refused''), 0)"
    and p2: "?p 2 = (Inr (), 0)"
    by (simp_all add: pg_up_at_2_def)
  have q0: "?q 0 = (Inl (GraphError ''service unavailable''), 0)"
    and q1: "?q 1 = (Inl (GraphError ''service unavailable''), 0)"
    and q2: "?q 2 = (Inr (), 0)"
    by (simp_all add: neo4j_up_at_2_def)
  have tp1: "attempt_time ?p 0 (Suc 0) = 1"
    unfolding attempt_time.simps p0 by simp
  have tp2: "attempt_time ?p 0 (Suc (Suc 0)) = 2"
    unfolding attempt_time.simps(2) [of ?p 0 "Suc 0"] tp1 p1 by simp
  have tq1: "attempt_time ?q 0 (Suc 0) = 1"
    unfolding attempt_time.simps q0 by simp
  have tq2: "attempt_time ?q 0 (Suc (Suc 0)) = 2"
    unfolding attempt_time.simps(2) [of ?q 0 "Suc 0"] tq1 q1 by simp
  have tp0: "attempt_time ?p 0 0 = 0" and tq0: "attempt_time ?q 0 0 = 0"
    by (simp_all only: attempt_time.simps)
  have rp: "retried ?p WAIT_TIMEOUT_SEC 0 (Suc (Suc 0))"
    unfolding retried_Suc attempt_end_def tp0 tp1 p0 p1
    by (simp add: retried_0 WAIT_TIMEOUT_SEC_def)
  have rq: "retried ?q WAIT_TIMEOUT_SEC 0 (Suc (Suc 0))"
    unfolding retried_Suc attempt_end_def tq0 tq1 q0 q1
    by (simp add: retried_0 WAIT_TIMEOUT_SEC_def)
  have sp: "fst (?p (attempt_time ?p 0 (Suc (Suc 0)))) = Inr ()"
    unfolding tp2 p2 by simp
  have sq: "fst (?q (attempt_time ?q 0 (Suc (Suc 0)))) = Inr ()"
    unfolding tq2 q2 by simp
  have ep: "attempt_end ?p 0 (Suc (Suc 0)) = 2"
    unfolding attempt_end_def tp2 p2 by simp
  have eq: "attempt_end ?q 0 (Suc (Suc 0)) = 2"
    unfolding attempt_end_def tq2 q2 by simp
  have "wait_for_postgres pg_up_at_2 WAIT_TIMEOUT_SEC 0 =
          (Inr (), attempt_end ?p 0 (Suc (Suc 0)))"
    by (rule up [THEN conjunct1, rule_format]) (intro conjI rp sp)
  then have a: "wait_for_postgres pg_up_at_2 WAIT_TIMEOUT_SEC 0 = (Inr (), 2)"
    unfolding ep .
  have "wait_for_neo4j neo4j_up_at_2 WAIT_TIMEOUT_SEC 0 =
          (Inr (), attempt_end ?q 0 (Suc (Suc 0)))"
    by (rule up [THEN conjunct2, THEN conjunct2, THEN conjunct2, THEN conjunct1, rule_format])
      (intro conjI rq sq)
  then have b: "wait_for_neo4j neo4j_up_at_2 WAIT_TIMEOUT_SEC 0 = (Inr (), 2)"
    unfolding eq .
  have t: "(0::int) \<le> WAIT_TIMEOUT_SEC" by (simp add: WAIT_TIMEOUT_SEC_def)
  have dp: "\<forall>t. fst (pg_attempt (fst (pg_down t)), snd (pg_down t)) \<noteq> Inr () \<and>
                snd (pg_attempt (fst (pg_down t)), snd (pg_down t)) \<le> 0"
    by (simp add: pg_down_def)
  have dq: "\<forall>t. fst (neo4j_round_trip (fst (neo4j_down t)), snd (neo4j_down t)) \<noteq> Inr () \<and>
                snd (neo4j_round_trip (fst (neo4j_down t)), snd (neo4j_down t)) \<le> 0"
    by (simp add: neo4j_down_def)
  obtain e T where c: "wait_for_postgres pg_down WAIT_TIMEOUT_SEC 0 = (Inl e, T)"
      "WAIT_TIMEOUT_SEC < T - 0" "T - 0 \<le> WAIT_TIMEOUT_SEC + 1 + int 0"
    using down [THEN conjunct2, THEN conjunct2, THEN conjunct1, rule_format, of 0,
        OF conjI [OF t dp]]
    by (elim exE conjE)
  obtain e' T' where d: "wait_for_neo4j neo4j_down WAIT_TIMEOUT_SEC 0 = (Inl e', T')"
      "WAIT_TIMEOUT_SEC < T' - 0" "T' - 0 \<le> WAIT_TIMEOUT_SEC + 1 + int 0"
    using down [THEN conjunct2, THEN conjunct2, THEN conjunct2, THEN conjunct2,
        THEN conjunct2, rule_format, of 0, OF conjI [OF t dq]]
    by (elim exE conjE)
  have "T = 121" "T' = 121"
    using c(2,3) d(2,3) by (simp_all add: WAIT_TIMEOUT_SEC_def)
  then show ?thesis using a b c(1) d(1) by simp
qed

section \<open>Tables\<close>

text \<open>
  A cell of a table, a query parameter and a property of the graph are values of one
  type. \<open>VNull\<close> is Python's \<^verbatim>\<open>None\<close> and Cypher's \<^verbatim>\<open>null\<close>. A scalar of any
  other type (a float, a date, a date-time) is written as a literal, \<open>VTyped\<close> of its
  type name and of the value it is built from: \<open>VTyped ''datetime'' (VStr s)\<close> is the
  date-time the text \<open>s\<close> denotes. Arithmetic on floats is never needed.
\<close>

datatype val = VNull | VInt int | VStr string | VTyped string val

text \<open>
  A record of \<^verbatim>\<open>to_dict("records")\<close> is a dict from column names to cells.
  Reading a field that the record does not have gives \<open>VNull\<close>: that is Python's
  \<^verbatim>\<open>e.get(k)\<close> and Cypher's \<^verbatim>\<open>row.k\<close> on a map.
\<close>

type_synonym row = "string \<rightharpoonup> val"

definition field :: "row \<Rightarrow> string \<Rightarrow> val" where
  "field r k = (case r k of None \<Rightarrow> VNull | Some v \<Rightarrow> v)"

text \<open>
  A \<^verbatim>\<open>DataFrame\<close> is its column index and its rows in order, each row holding
  the cells of the columns.
\<close>

record dataframe =
  df_columns :: "string list"
  df_rows :: "row list"

definition to_dict_records :: "dataframe \<Rightarrow> row list" where
  "to_dict_records df = map (\<lambda>r. r |` set (df_columns df)) (df_rows df)"

section \<open>Extractor (etl.py, lines 82-89)\<close>

text \<open>
  \<^verbatim>\<open>create_engine\<close> makes one engine, the loop reads the six relations through
  it, \<^verbatim>\<open>engine.dispose()\<close> releases it. The state counts the engines that were
  created and not disposed; the answer of the source to each read is an input. A read
  that raises leaves the function at once, as the exception does: the statements after
  the loop do not run.
\<close>

record pool_state =
  live_engines :: nat

definition source_relations :: "string list" where
  "source_relations =
     [''customers'', ''categories'', ''products'', ''orders'', ''order_items'', ''events'']"

fun read_all ::
  "(string \<Rightarrow> exn + dataframe) \<Rightarrow> string list \<Rightarrow> (string \<rightharpoonup> dataframe) \<Rightarrow>
   exn + (string \<rightharpoonup> dataframe)" where
  "read_all read_sql_query [] tables = Inr tables"
| "read_all read_sql_query (tbl # tbls) tables =
     (case read_sql_query tbl of
        Inl e \<Rightarrow> Inl e
      | Inr df \<Rightarrow> read_all read_sql_query tbls (tables(tbl \<mapsto> df)))"

definition extract_postgres ::
  "(string \<Rightarrow> exn + dataframe) \<Rightarrow> pool_state \<Rightarrow> (exn + (string \<rightharpoonup> dataframe)) \<times> pool_state" where
  "extract_postgres read_sql_query st =
     (let st1 = st\<lparr>live_engines := live_engines st + 1\<rparr>
      in case read_all read_sql_query source_relations Map.empty of
           Inl e \<Rightarrow> (Inl e, st1)
         | Inr tables \<Rightarrow> (Inr tables, st1\<lparr>live_engines := live_engines st1 - 1\<rparr>))"

text \<open>
  A source in which the relation \<open>products\<close> does not exist: its read raises, every
  other read answers an empty table.
\<close>

definition products_missing :: "string \<Rightarrow> exn + dataframe" where
  "products_missing tbl =
     (if tbl = ''products'' then Inl (SourceError ''relation products does not exist'')
      else Inr \<lparr>df_columns = [], df_rows = []\<rparr>)"

definition all_relations_empty :: "string \<Rightarrow> exn + dataframe" where
  "all_relations_empty tbl = Inr \<lparr>df_columns = [], df_rows = []\<rparr>"

lemma read_all_succeeds:
  "\<forall>tbl \<in> set tbls. \<exists>df. read_sql_query tbl = Inr df \<Longrightarrow>
   \<exists>t. read_all read_sql_query tbls tables = Inr t"
  by (induction tbls arbitrary: tables) auto

lemma extract_postgres_releases_on_success:
  "\<forall>tbl \<in> set source_relations. \<exists>df. read_sql_query tbl = Inr df \<Longrightarrow>
   \<exists>t. extract_postgres read_sql_query st = (Inr t, st)"
  using read_all_succeeds [of source_relations read_sql_query Map.empty]
  by (auto simp: extract_postgres_def Let_def)

text \<open>
  Claim C9 fails on the code. When the third read raises, the call raises with the
  engine created and never disposed: one more engine is live after the call than
  before it. (When all six reads succeed the engine is released, see
  \<open>extract_postgres_releases_on_success\<close>.)
\<close>

theorem extract_postgres_leaks_on_failure:
  "extract_postgres products_missing \<lparr>live_engines = 0\<rparr> =
     (Inl (SourceError ''relation products does not exist''), \<lparr>live_engines = 1\<rparr>)"
  by (simp add: extract_postgres_def source_relations_def products_missing_def)



section \<open>Normalizer (etl.py, lines 95-127)\<close>

text \<open>
  The two converters are chains of pandas calls. What pandas computes is not code of
  this program, so it is a parameter: \<open>astype_str\<close> is \<^verbatim>\<open>str\<close> on a cell,
  \<open>str_strip\<close> is \<^verbatim>\<open>str.strip\<close>, \<open>to_datetime utc column text\<close> is the
  timestamp \<^verbatim>\<open>pd.to_datetime(..., errors="coerce")\<close> gives to the cell
  \<open>text\<close> of the column \<open>column\<close> (pandas looks at the whole column to choose a
  format), \<open>None\<close> for \<^verbatim>\<open>NaT\<close>, and \<open>strftime\<close> formats a timestamp.
  The last line of each converter replaces the missing results by \<^verbatim>\<open>None\<close>.
\<close>

record 'ts pandas =
  astype_str :: "val \<Rightarrow> string"
  str_strip :: "string \<Rightarrow> string"
  to_datetime :: "bool \<Rightarrow> string list \<Rightarrow> string \<Rightarrow> 'ts option"
  strftime :: "string \<Rightarrow> 'ts \<Rightarrow> string"

definition where_notna_else_None :: "string option list \<Rightarrow> val list" where
  "where_notna_else_None s = map (\<lambda>x. case x of None \<Rightarrow> VNull | Some t \<Rightarrow> VStr t) s"

definition to_date_str :: "'ts pandas \<Rightarrow> val list \<Rightarrow> val list" where
  "to_date_str P series =
     (let texts = map (\<lambda>x. str_strip P (astype_str P x)) series;
          s = map (\<lambda>x. map_option (strftime P ''%Y-%m-%d'') (to_datetime P False texts x)) texts
      in where_notna_else_None s)"

definition to_datetime_str :: "'ts pandas \<Rightarrow> val list \<Rightarrow> val list" where
  "to_datetime_str P series =
     (let texts = map (\<lambda>x. str_strip P (astype_str P x)) series;
          s = map (\<lambda>x. map_option (strftime P ''%Y-%m-%dT%H:%M:%SZ'') (to_datetime P True texts x)) texts
      in where_notna_else_None s)"

lemma length_to_date_str [simp]: "length (to_date_str P xs) = length xs"
  by (simp add: to_date_str_def where_notna_else_None_def Let_def)

lemma length_to_datetime_str [simp]: "length (to_datetime_str P xs) = length xs"
  by (simp add: to_datetime_str_def where_notna_else_None_def Let_def)

text \<open>
  \<^verbatim>\<open>normalize_tables\<close> copies every frame and assigns columns of the copies.
  Whether the caller's frames are touched depends on which object an assignment
  reaches, so frames live in a store: an address is a position in the list of all
  frames, the dict \<open>tables\<close> maps names to addresses (an association list in
  insertion order), \<^verbatim>\<open>v.copy()\<close> appends a frame to the store, and a column
  assignment updates the frame at its address. Subscripting a dict with an absent key
  and reading an absent column raise \<^verbatim>\<open>KeyError\<close>.
\<close>

type_synonym heap = "dataframe list"

definition dict_getitem :: "(string \<times> 'a) list \<Rightarrow> string \<Rightarrow> exn + 'a" where
  "dict_getitem d k = (case map_of d k of None \<Rightarrow> Inl (KeyError k) | Some v \<Rightarrow> Inr v)"

definition get_column :: "dataframe \<Rightarrow> string \<Rightarrow> exn + val list" where
  "get_column df c =
     (if c \<in> set (df_columns df) then Inr (map (\<lambda>r. field r c) (df_rows df))
      else Inl (KeyError c))"

definition set_column :: "string \<Rightarrow> val list \<Rightarrow> dataframe \<Rightarrow> dataframe" where
  "set_column c series df =
     df\<lparr>df_columns := (if c \<in> set (df_columns df) then df_columns df else df_columns df @ [c]),
        df_rows := map (\<lambda>(r, v). r(c \<mapsto> v)) (zip (df_rows df) series)\<rparr>"

fun copy_all :: "(string \<times> nat) list \<Rightarrow> heap \<Rightarrow> (string \<times> nat) list \<times> heap" where
  "copy_all [] h = ([], h)"
| "copy_all ((k, v) # kvs) h =
     (let (t, h') = copy_all kvs (h @ [h ! v]) in ((k, length h) # t, h'))"

definition normalize_column ::
  "string \<Rightarrow> string \<Rightarrow> (val list \<Rightarrow> val list) \<Rightarrow> (string \<times> nat) list \<Rightarrow> heap \<Rightarrow> exn + heap" where
  "normalize_column tbl col conv t h =
     (case (if map_of t tbl = None then Inr False
            else case dict_getitem t tbl of
                   Inl e \<Rightarrow> Inl e
                 | Inr a \<Rightarrow> Inr (col \<in> set (df_columns (h ! a)))) of
        Inl e \<Rightarrow> Inl e
      | Inr present \<Rightarrow>
          if \<not> present then Inr h
          else (case dict_getitem t tbl of
                  Inl e \<Rightarrow> Inl e
                | Inr a \<Rightarrow>
                    (case get_column (h ! a) col of
                       Inl e \<Rightarrow> Inl e
                     | Inr series \<Rightarrow> Inr (h[a := set_column col (conv series) (h ! a)]))))"

definition normalize_tables ::
  "'ts pandas \<Rightarrow> (string \<times> nat) list \<Rightarrow> heap \<Rightarrow> exn + ((string \<times> nat) list \<times> heap)" where
  "normalize_tables P tables h =
     (let (t, h0) = copy_all tables h
      in case normalize_column ''customers'' ''join_date'' (to_date_str P) t h0 of
           Inl e \<Rightarrow> Inl e
         | Inr h1 \<Rightarrow>
             (case normalize_column ''orders'' ''ts'' (to_datetime_str P) t h1 of
                Inl e \<Rightarrow> Inl e
              | Inr h2 \<Rightarrow>
                  (case normalize_column ''events'' ''ts'' (to_datetime_str P) t h2 of
                     Inl e \<Rightarrow> Inl e
                   | Inr h3 \<Rightarrow> Inr (t, h3))))"

lemma copy_all_eq:
  "copy_all kvs h =
     (zip (map fst kvs) [length h ..< length h + length kvs],
      h @ map (\<lambda>kv. h ! snd kv) kvs)" if "\<forall>kv \<in> set kvs. snd kv < length h"
  using that
proof (induction kvs arbitrary: h)
  case Nil
  then show ?case by simp
next
  case (Cons kv kvs)
  obtain k v where kv: "kv = (k, v)" by (cases kv)
  have IH: "copy_all kvs (h @ [h ! v]) =
     (zip (map fst kvs) [Suc (length h) ..< Suc (length h) + length kvs],
      (h @ [h ! v]) @ map (\<lambda>kv. (h @ [h ! v]) ! snd kv) kvs)"
    using Cons.IH [of "h @ [h ! v]"] Cons.prems by (simp add: less_Suc_eq)
  have m: "map (\<lambda>kv. (h @ [h ! v]) ! snd kv) kvs = map (\<lambda>kv. h ! snd kv) kvs"
    using Cons.prems by (simp add: nth_append)
  show ?case
    unfolding kv by (simp add: IH m upt_conv_Cons del: upt_Suc)
qed


text \<open>What the function does to one frame, as a function of the frame and its table name.\<close>

definition rewrite_column :: "string \<Rightarrow> (val list \<Rightarrow> val list) \<Rightarrow> dataframe \<Rightarrow> dataframe" where
  "rewrite_column c conv df =
     (if c \<in> set (df_columns df)
      then set_column c (conv (map (\<lambda>r. field r c) (df_rows df))) df else df)"

definition normalized_frame :: "'ts pandas \<Rightarrow> string \<Rightarrow> dataframe \<Rightarrow> dataframe" where
  "normalized_frame P tbl df =
     (if tbl = ''customers'' then rewrite_column ''join_date'' (to_date_str P) df
      else if tbl = ''orders'' then rewrite_column ''ts'' (to_datetime_str P) df
      else if tbl = ''events'' then rewrite_column ''ts'' (to_datetime_str P) df
      else df)"

lemma normalize_column_eq:
  "normalize_column tbl col conv t h =
     Inr (case map_of t tbl of None \<Rightarrow> h | Some a \<Rightarrow> h[a := rewrite_column col conv (h ! a)])"
  by (auto simp: normalize_column_def dict_getitem_def get_column_def rewrite_column_def
      split: option.splits)

lemma copy_all_props:
  assumes "\<forall>kv \<in> set kvs. snd kv < length h" and "distinct (map fst kvs)"
    and "copy_all kvs h = (t, h0)"
  shows "map fst t = map fst kvs" and "distinct (map snd t)" and "distinct (map fst t)"
    and "take (length h) h0 = h"
    and "length h0 = length h + length kvs"
    and "\<forall>ka \<in> set t. length h \<le> snd ka \<and> snd ka < length h0"
    and "map_of kvs k = Some a \<Longrightarrow>
         \<exists>a'. map_of t k = Some a' \<and> h0 ! a' = h ! a"
    and "map_of kvs k = None \<Longrightarrow> map_of t k = None"
proof -
  have t: "t = zip (map fst kvs) [length h ..< length h + length kvs]"
    and h0: "h0 = h @ map (\<lambda>kv. h ! snd kv) kvs"
    using copy_all_eq [OF assms(1)] assms(3) by simp_all
  show 1: "map fst t = map fst kvs" by (simp add: t)
  show 2: "distinct (map snd t)" by (simp add: t)
  show 3: "distinct (map fst t)" using 1 assms(2) by simp
  show "take (length h) h0 = h" by (simp add: h0)
  show "length h0 = length h + length kvs" by (simp add: h0)
  show "\<forall>ka \<in> set t. length h \<le> snd ka \<and> snd ka < length h0"
    by (auto simp: t h0 set_zip)
  show "\<exists>a'. map_of t k = Some a' \<and> h0 ! a' = h ! a" if "map_of kvs k = Some a"
  proof -
    have "(k, a) \<in> set kvs" using that by (rule map_of_SomeD)
    then obtain i where i: "i < length kvs" "kvs ! i = (k, a)"
      by (auto simp: in_set_conv_nth)
    have "(k, length h + i) \<in> set t"
      using i by (force simp: t set_zip)
    then have "map_of t k = Some (length h + i)"
      using 3 by simp
    moreover have "h0 ! (length h + i) = h ! a"
      using i by (simp add: h0)
    ultimately show ?thesis by blast
  qed
  show "map_of t k = None" if "map_of kvs k = None"
    using that 1 by (simp add: map_of_eq_None_iff flip: set_map)
qed

lemma nth_after_rewrite:
  assumes "distinct (map snd t)" and "map_of t k = Some a'" and "a' < length h"
  shows "(case map_of t tbl of None \<Rightarrow> h | Some a \<Rightarrow> h[a := f (h ! a)]) ! a' =
         (if k = tbl then f (h ! a') else h ! a')"
proof (cases "map_of t tbl")
  case None
  then show ?thesis using assms(2) by auto
next
  case (Some a)
  have "a = a' \<longleftrightarrow> k = tbl"
  proof
    assume "a = a'"
    then have "(k, a) \<in> set t" "(tbl, a) \<in> set t"
      using Some assms(2) by (auto dest: map_of_SomeD)
    then show "k = tbl"
      using assms(1) by (metis eq_key_imp_eq_value distinct_map inj_onD snd_conv prod.inject)
  next
    assume "k = tbl"
    then show "a = a'" using Some assms(2) by simp
  qed
  then show ?thesis using Some assms(3) by auto
qed


definition temporal_columns :: "(string \<times> string) set" where
  "temporal_columns = {(''customers'', ''join_date''), (''orders'', ''ts''), (''events'', ''ts'')}"

lemma rewrite_column_frame:
  assumes "\<And>xs. length (conv xs) = length xs"
  shows "df_columns (rewrite_column c conv df) = df_columns df"
    and "length (df_rows (rewrite_column c conv df)) = length (df_rows df)"
    and "i < length (df_rows df) \<Longrightarrow> c' \<noteq> c \<Longrightarrow>
         (df_rows (rewrite_column c conv df) ! i) c' = (df_rows df ! i) c'"
  using assms by (simp_all add: rewrite_column_def set_column_def)

lemma normalized_frame_frame:
  "df_columns (normalized_frame P k df) = df_columns df"
  "length (df_rows (normalized_frame P k df)) = length (df_rows df)"
  "i < length (df_rows df) \<Longrightarrow> (k, c) \<notin> temporal_columns \<Longrightarrow>
     (df_rows (normalized_frame P k df) ! i) c = (df_rows df ! i) c"
  by (auto simp: normalized_frame_def temporal_columns_def rewrite_column_frame)

lemma length_rewritten:
  "length (case map_of t tbl of None \<Rightarrow> h | Some a \<Rightarrow> h[a := f (h ! a)]) = length h"
  by (simp split: option.splits)

lemma take_rewritten:
  "\<forall>ka \<in> set t. n \<le> snd ka \<Longrightarrow>
   take n (case map_of t tbl of None \<Rightarrow> h | Some a \<Rightarrow> h[a := f (h ! a)]) = take n h"
  by (auto split: option.splits dest!: map_of_SomeD)

text \<open>
  Claim C8. For a dict of valid addresses, \<^verbatim>\<open>normalize_tables\<close> does not raise,
  whichever tables and columns are present. Every frame that existed before the call
  is unchanged (the store only grows). The result maps the same names, each to a new
  frame with the same columns and the same number of rows, in which every cell
  outside \<open>customers.join_date\<close>, \<open>orders.ts\<close> and \<open>events.ts\<close> is the cell
  of the input; the new frame is \<open>normalized_frame\<close> of the input frame.
\<close>

theorem normalize_tables_frame:
  assumes "\<forall>kv \<in> set tables. snd kv < length h" and "distinct (map fst tables)"
  shows "\<exists>t h'. normalize_tables P tables h = Inr (t, h') \<and>
           take (length h) h' = h \<and>
           map fst t = map fst tables \<and>
           (\<forall>k a. map_of tables k = Some a \<longrightarrow>
              (\<exists>a'. map_of t k = Some a' \<and> length h \<le> a' \<and> a' < length h' \<and>
                 h' ! a' = normalized_frame P k (h ! a) \<and>
                 df_columns (h' ! a') = df_columns (h ! a) \<and>
                 length (df_rows (h' ! a')) = length (df_rows (h ! a)) \<and>
                 (\<forall>i c. i < length (df_rows (h ! a)) \<longrightarrow> (k, c) \<notin> temporal_columns \<longrightarrow>
                    (df_rows (h' ! a') ! i) c = (df_rows (h ! a) ! i) c)))"
proof -
  obtain t h0 where c: "copy_all tables h = (t, h0)" by (cases "copy_all tables h")
  note props = copy_all_props [OF assms c]
  let ?u = "\<lambda>tbl col conv h. case map_of t tbl of None \<Rightarrow> h
              | Some a \<Rightarrow> h[a := rewrite_column col conv (h ! a)]"
  define h1 where "h1 = ?u ''customers'' ''join_date'' (to_date_str P) h0"
  define h2 where "h2 = ?u ''orders'' ''ts'' (to_datetime_str P) h1"
  define h3 where "h3 = ?u ''events'' ''ts'' (to_datetime_str P) h2"
  have r1: "normalize_column ''customers'' ''join_date'' (to_date_str P) t h0 = Inr h1"
    by (simp only: normalize_column_eq h1_def)
  have r2: "normalize_column ''orders'' ''ts'' (to_datetime_str P) t h1 = Inr h2"
    by (simp only: normalize_column_eq h2_def)
  have r3: "normalize_column ''events'' ''ts'' (to_datetime_str P) t h2 = Inr h3"
    by (simp only: normalize_column_eq h3_def)
  have res: "normalize_tables P tables h = Inr (t, h3)"
    by (simp add: normalize_tables_def c r1 r2 r3)
  have len: "length h1 = length h0" "length h2 = length h0" "length h3 = length h0"
    by (simp_all add: h1_def h2_def h3_def length_rewritten)
  have ge: "\<forall>ka \<in> set t. length h \<le> snd ka" using props(6) by blast
  have tk: "take (length h) h3 = h"
    using props(4) by (simp add: h1_def h2_def h3_def take_rewritten [OF ge])
  have each: "\<exists>a'. map_of t k = Some a' \<and> length h \<le> a' \<and> a' < length h3 \<and>
                 h3 ! a' = normalized_frame P k (h ! a)"
    if m: "map_of tables k = Some a" for k a
  proof -
    obtain a' where a': "map_of t k = Some a'" "h0 ! a' = h ! a"
      using props(7) [OF m] by blast
    have in_t: "(k, a') \<in> set t" using a'(1) by (rule map_of_SomeD)
    have b: "length h \<le> a'" "a' < length h0" using props(6) in_t by auto
    have n1: "h1 ! a' = (if k = ''customers''
                then rewrite_column ''join_date'' (to_date_str P) (h0 ! a') else h0 ! a')"
      unfolding h1_def by (rule nth_after_rewrite [OF props(2) a'(1) b(2)])
    have n2: "h2 ! a' = (if k = ''orders''
                then rewrite_column ''ts'' (to_datetime_str P) (h1 ! a') else h1 ! a')"
      unfolding h2_def using b(2) len by (intro nth_after_rewrite [OF props(2) a'(1)]) simp
    have n3: "h3 ! a' = (if k = ''events''
                then rewrite_column ''ts'' (to_datetime_str P) (h2 ! a') else h2 ! a')"
      unfolding h3_def using b(2) len by (intro nth_after_rewrite [OF props(2) a'(1)]) simp
    have "h3 ! a' = normalized_frame P k (h ! a)"
      by (simp add: n1 n2 n3 a'(2) normalized_frame_def)
    then show ?thesis using a'(1) b len by simp
  qed
  have full: "\<forall>k a. map_of tables k = Some a \<longrightarrow>
              (\<exists>a'. map_of t k = Some a' \<and> length h \<le> a' \<and> a' < length h3 \<and>
                 h3 ! a' = normalized_frame P k (h ! a) \<and>
                 df_columns (h3 ! a') = df_columns (h ! a) \<and>
                 length (df_rows (h3 ! a')) = length (df_rows (h ! a)) \<and>
                 (\<forall>i c. i < length (df_rows (h ! a)) \<longrightarrow> (k, c) \<notin> temporal_columns \<longrightarrow>
                    (df_rows (h3 ! a') ! i) c = (df_rows (h ! a) ! i) c))"
  proof (intro allI impI)
    fix k a assume "map_of tables k = Some a"
    then obtain a' where a': "map_of t k = Some a'" "length h \<le> a'" "a' < length h3"
        "h3 ! a' = normalized_frame P k (h ! a)"
      using each by blast
    show "\<exists>a'. map_of t k = Some a' \<and> length h \<le> a' \<and> a' < length h3 \<and>
                 h3 ! a' = normalized_frame P k (h ! a) \<and>
                 df_columns (h3 ! a') = df_columns (h ! a) \<and>
                 length (df_rows (h3 ! a')) = length (df_rows (h ! a)) \<and>
                 (\<forall>i c. i < length (df_rows (h ! a)) \<longrightarrow> (k, c) \<notin> temporal_columns \<longrightarrow>
                    (df_rows (h3 ! a') ! i) c = (df_rows (h ! a) ! i) c)"
      by (rule exI [of _ a']) (simp add: a' normalized_frame_frame)
  qed
  show ?thesis
    by (intro exI [of _ t] exI [of _ h3] conjI res tk props(1) full)
qed


text \<open>
  An instance: one \<open>customers\<close> frame and an \<open>orders\<close> frame without the column
  \<open>ts\<close>, under a pandas that parses no text at all.
\<close>

definition pandas_parsing_nothing :: "unit pandas" where
  "pandas_parsing_nothing =
     \<lparr>astype_str = (\<lambda>v. case v of VStr s \<Rightarrow> s | _ \<Rightarrow> ''None''),
      str_strip = (\<lambda>s. s),
      to_datetime = (\<lambda>utc column text. None),
      strftime = (\<lambda>fmt ts. [])\<rparr>"

definition customers_frame :: dataframe where
  "customers_frame =
     \<lparr>df_columns = [''id'', ''name'', ''join_date''],
      df_rows = [[''id'' \<mapsto> VInt 1, ''name'' \<mapsto> VStr ''Ada'', ''join_date'' \<mapsto> VStr ''soon'']]\<rparr>"

definition orders_frame_without_ts :: dataframe where
  "orders_frame_without_ts =
     \<lparr>df_columns = [''id'', ''customer_id''],
      df_rows = [[''id'' \<mapsto> VInt 7, ''customer_id'' \<mapsto> VInt 1]]\<rparr>"

theorem normalize_tables_frame_witness:
  "\<exists>t h'. normalize_tables pandas_parsing_nothing [(''customers'', 0), (''orders'', 1)]
             [customers_frame, orders_frame_without_ts] = Inr (t, h') \<and>
          take 2 h' = [customers_frame, orders_frame_without_ts] \<and>
          map fst t = [''customers'', ''orders'']"
proof -
  have a: "\<forall>kv \<in> set [(''customers'', 0::nat), (''orders'', 1)].
             snd kv < length [customers_frame, orders_frame_without_ts]"
    by simp
  have b: "distinct (map fst [(''customers'', 0::nat), (''orders'', 1)])"
    by simp
  obtain t h' where
    r: "normalize_tables pandas_parsing_nothing [(''customers'', 0), (''orders'', 1)]
          [customers_frame, orders_frame_without_ts] = Inr (t, h')"
      "take (length [customers_frame, orders_frame_without_ts]) h' =
          [customers_frame, orders_frame_without_ts]"
      "map fst t = map fst [(''customers'', 0::nat), (''orders'', 1)]"
    using normalize_tables_frame [OF a b, of pandas_parsing_nothing] by blast
  have r2: "take 2 h' = [customers_frame, orders_frame_without_ts]"
    using r(2) by (simp add: numeral_2_eq_2)
  have r3: "map fst t = [''customers'', ''orders'']"
    using r(3) by simp
  show ?thesis
    by (intro exI [of _ t] exI [of _ h'] conjI r(1) r2 r3)
qed

section \<open>Graph store and the Cypher clauses of the loader\<close>

text \<open>
  The graph lives in Neo4j; the loader changes it only through the six Cypher
  statements written in \<^verbatim>\<open>load_graph\<close>, so the store is explicit state and each
  clause of those statements is a function on it.

  Modelled from the spec: the file \<^verbatim>\<open>queries.cypher\<close> that step 1 runs is not
  among the sources. The spec says it holds the uniqueness constraints that make
  upsert by key correct, so the store holds at most one node for a label and an
  \<open>id\<close>, and a node is addressed by that pair. Nothing constrains relationships:
  between two nodes the store holds a list of parallel relationships of a kind, each
  with its own properties, and only what \<^verbatim>\<open>MERGE\<close> does keeps that list short.
  A property that is \<open>VNull\<close> is an absent property, as in Neo4j.
\<close>

type_synonym props = "string \<Rightarrow> val"
type_synonym node_key = "string \<times> val"
type_synonym edge_key = "string \<times> node_key \<times> node_key"

record graph =
  nodes :: "node_key \<Rightarrow> props option"
  edges :: "edge_key \<Rightarrow> props list"

text \<open>The empty store, and the properties of an entity that has none.\<close>

definition empty_graph :: graph where
  "empty_graph = \<lparr>nodes = (\<lambda>k. None), edges = (\<lambda>k. [])\<rparr>"

definition no_props :: props where
  "no_props = (\<lambda>p. VNull)"

text \<open>
  The functions of Cypher that the statements call are the engine's, not the
  program's: they are a parameter. Each maps a value to a value, or raises (\<open>None\<close>).
\<close>

record builtins =
  toFloat :: "val \<Rightarrow> val option"
  toInteger :: "val \<Rightarrow> val option"
  date :: "val \<Rightarrow> val option"
  datetime :: "val \<Rightarrow> val option"

text \<open>
  Sequencing of steps that can raise, and the evaluation of a built-in function
  inside a statement: when the function raises, the statement fails.
\<close>

definition then_do :: "exn + 'a \<Rightarrow> ('a \<Rightarrow> exn + 'b) \<Rightarrow> exn + 'b" where
  "then_do x f = (case x of Inl e \<Rightarrow> Inl e | Inr v \<Rightarrow> f v)"

definition evaluate :: "string \<Rightarrow> val option \<Rightarrow> exn + val" where
  "evaluate fn x = (case x of None \<Rightarrow> Inl (GraphError fn) | Some v \<Rightarrow> Inr v)"

text \<open>
  \<^verbatim>\<open>MERGE (n:Label {id: k})\<close> binds the node with that label and id, creating it
  with the single property \<open>id\<close> when there is none; Neo4j refuses to merge on a
  null property value. \<^verbatim>\<open>SET n.p = v\<close> writes one property of the bound node.
  \<^verbatim>\<open>MATCH (n:Label {id: k})\<close> yields the node when it exists and no row otherwise,
  which ends the statement for the current record without an error; a null never
  matches.
\<close>

definition merge_node :: "string \<Rightarrow> val \<Rightarrow> graph \<Rightarrow> exn + graph" where
  "merge_node label k g =
     (if k = VNull then Inl (GraphError ''MERGE with a null property value'')
      else case nodes g (label, k) of
             Some ps \<Rightarrow> Inr g
           | None \<Rightarrow> Inr (g\<lparr>nodes := (nodes g)((label, k) \<mapsto> no_props(''id'' := k))\<rparr>))"

definition set_node_property :: "node_key \<Rightarrow> string \<Rightarrow> val \<Rightarrow> graph \<Rightarrow> graph" where
  "set_node_property n p v g =
     (case nodes g n of
        None \<Rightarrow> g
      | Some ps \<Rightarrow> g\<lparr>nodes := (nodes g)(n \<mapsto> ps(p := v))\<rparr>)"

definition match_node :: "string \<Rightarrow> val \<Rightarrow> graph \<Rightarrow> bool" where
  "match_node label k g = (k \<noteq> VNull \<and> nodes g (label, k) \<noteq> None)"

text \<open>
  \<^verbatim>\<open>MERGE (a)-[r:KIND]->(b)\<close> binds every relationship of that kind from \<open>a\<close>
  to \<open>b\<close>, creating one without properties when there is none;
  \<^verbatim>\<open>SET r.p = v\<close> writes the property on every relationship bound.
\<close>

definition merge_edge :: "edge_key \<Rightarrow> graph \<Rightarrow> graph" where
  "merge_edge e g =
     (if edges g e = [] then g\<lparr>edges := (edges g)(e := [no_props])\<rparr> else g)"

definition set_edge_property :: "edge_key \<Rightarrow> string \<Rightarrow> val \<Rightarrow> graph \<Rightarrow> graph" where
  "set_edge_property e p v g =
     g\<lparr>edges := (edges g)(e := map (\<lambda>ps. ps(p := v)) (edges g e))\<rparr>"

text \<open>
  \<^verbatim>\<open>CASE WHEN v IS NULL OR v = "" THEN NULL ELSE f(v) END\<close>.
\<close>

definition null_when_blank :: "(val \<Rightarrow> val option) \<Rightarrow> val \<Rightarrow> val option" where
  "null_when_blank f v = (if v = VNull \<or> v = VStr [] then Some VNull else f v)"

section \<open>Graph loader (etl.py, lines 133-220)\<close>

text \<open>
  Each statement starts with \<^verbatim>\<open>UNWIND $rows AS row\<close>: its clauses run once for
  each record of the batch, in order. The six functions below are the clauses of the
  six statements for one record, in the order in which they are written.
\<close>

definition category_row :: "row \<Rightarrow> graph \<Rightarrow> exn + graph" where
  "category_row r g =
     then_do (merge_node ''Category'' (field r ''id'') g) (\<lambda>g.
       Inr (set_node_property (''Category'', field r ''id'') ''name'' (field r ''name'') g))"

definition product_row :: "builtins \<Rightarrow> row \<Rightarrow> graph \<Rightarrow> exn + graph" where
  "product_row E r g =
     then_do (merge_node ''Product'' (field r ''id'') g) (\<lambda>g.
     then_do (evaluate ''toFloat'' (toFloat E (field r ''price''))) (\<lambda>price.
       let p = (''Product'', field r ''id'');
           g = set_node_property p ''price'' price
                 (set_node_property p ''name'' (field r ''name'') g)
       in if match_node ''Category'' (field r ''category_id'') g
          then Inr (merge_edge (''IN_CATEGORY'', p, (''Category'', field r ''category_id'')) g)
          else Inr g))"

definition customer_row :: "builtins \<Rightarrow> row \<Rightarrow> graph \<Rightarrow> exn + graph" where
  "customer_row E r g =
     then_do (merge_node ''Customer'' (field r ''id'') g) (\<lambda>g.
     then_do (evaluate ''date'' (null_when_blank (date E) (field r ''join_date''))) (\<lambda>d.
       let c = (''Customer'', field r ''id'')
       in Inr (set_node_property c ''join_date'' d
                 (set_node_property c ''name'' (field r ''name'') g))))"

definition order_row :: "builtins \<Rightarrow> row \<Rightarrow> graph \<Rightarrow> exn + graph" where
  "order_row E r g =
     then_do (merge_node ''Order'' (field r ''id'') g) (\<lambda>g.
     then_do (evaluate ''datetime'' (null_when_blank (datetime E) (field r ''ts''))) (\<lambda>ts.
       let ord = (''Order'', field r ''id'');
           g = set_node_property ord ''ts'' ts g
       in if match_node ''Customer'' (field r ''customer_id'') g
          then Inr (merge_edge (''PLACED'', (''Customer'', field r ''customer_id''), ord) g)
          else Inr g))"

definition order_item_row :: "builtins \<Rightarrow> row \<Rightarrow> graph \<Rightarrow> exn + graph" where
  "order_item_row E r g =
     (if match_node ''Order'' (field r ''order_id'') g \<and>
         match_node ''Product'' (field r ''product_id'') g
      then let e = (''CONTAINS'', (''Order'', field r ''order_id''),
                    (''Product'', field r ''product_id''));
               g = merge_edge e g
           in then_do (evaluate ''toInteger'' (toInteger E (field r ''quantity''))) (\<lambda>q.
                Inr (set_edge_property e ''quantity'' q g))
      else Inr g)"

definition event_row :: "builtins \<Rightarrow> string \<Rightarrow> row \<Rightarrow> graph \<Rightarrow> exn + graph" where
  "event_row E rel_type r g =
     (if match_node ''Customer'' (field r ''customer_id'') g \<and>
         match_node ''Product'' (field r ''product_id'') g
      then let e = (rel_type, (''Customer'', field r ''customer_id''),
                    (''Product'', field r ''product_id''));
               g = merge_edge e g
           in then_do (evaluate ''datetime'' (null_when_blank (datetime E) (field r ''ts''))) (\<lambda>ts.
                Inr (set_edge_property e ''ts'' ts g))
      else Inr g)"

text \<open>
  A \<^verbatim>\<open>for\<close> loop over steps that can raise: the first exception ends it. One
  \<^verbatim>\<open>session.run\<close> executes a statement for each record of a batch, and each
  relation is sent in batches of \<open>BATCH_SIZE\<close> records.
\<close>

fun for_each :: "('a \<Rightarrow> 's \<Rightarrow> exn + 's) \<Rightarrow> 'a list \<Rightarrow> 's \<Rightarrow> exn + 's" where
  "for_each f [] s = Inr s"
| "for_each f (x # xs) s = then_do (f x s) (for_each f xs)"

definition run_batched :: "(row \<Rightarrow> graph \<Rightarrow> exn + graph) \<Rightarrow> row list \<Rightarrow> graph \<Rightarrow> exn + graph" where
  "run_batched statement rows g =
     for_each (\<lambda>batch. for_each statement batch) (chunk rows BATCH_SIZE) g"

text \<open>
  \<^verbatim>\<open>tables["name"].to_dict("records")\<close>: a missing table raises
  \<^verbatim>\<open>KeyError\<close>.
\<close>

definition records_of :: "(string \<rightharpoonup> dataframe) \<Rightarrow> string \<Rightarrow> exn + row list" where
  "records_of tables name =
     (case tables name of None \<Rightarrow> Inl (KeyError name) | Some df \<Rightarrow> Inr (to_dict_records df))"

text \<open>
  Step 7 filters the events by \<^verbatim>\<open>e.get("event_type") == t\<close> and loads the three
  buckets one after the other, each with its relationship type.
\<close>

definition by_type :: "row list \<Rightarrow> string \<Rightarrow> row list" where
  "by_type events t = filter (\<lambda>e. field e ''event_type'' = VStr t) events"

definition load_events :: "builtins \<Rightarrow> row list \<Rightarrow> graph \<Rightarrow> exn + graph" where
  "load_events E events g =
     for_each (\<lambda>(rel_type, subset). run_batched (event_row E rel_type) subset)
       [(''VIEWED'', by_type events ''view''),
        (''CLICKED'', by_type events ''click''),
        (''ADDED_TO_CART'', by_type events ''add_to_cart'')] g"

text \<open>
  \<^verbatim>\<open>load_graph\<close>: the steps 2 to 7 in their order, each table looked up when its
  step begins. Step 1 adds no node and no relationship (see above).
\<close>

definition load_graph :: "builtins \<Rightarrow> (string \<rightharpoonup> dataframe) \<Rightarrow> graph \<Rightarrow> exn + graph" where
  "load_graph E tables g =
     then_do (records_of tables ''categories'') (\<lambda>cats.
     then_do (run_batched category_row cats g) (\<lambda>g.
     then_do (records_of tables ''products'') (\<lambda>prods.
     then_do (run_batched (product_row E) prods g) (\<lambda>g.
     then_do (records_of tables ''customers'') (\<lambda>custs.
     then_do (run_batched (customer_row E) custs g) (\<lambda>g.
     then_do (records_of tables ''orders'') (\<lambda>orders.
     then_do (run_batched (order_row E) orders g) (\<lambda>g.
     then_do (records_of tables ''order_items'') (\<lambda>items.
     then_do (run_batched (order_item_row E) items g) (\<lambda>g.
     then_do (records_of tables ''events'') (\<lambda>events.
       load_events E events g)))))))))))"

section \<open>Properties of the loader\<close>

subsection \<open>Loops and batches\<close>

text \<open>Batching does not change what a step does: the batches concatenate to the rows.\<close>

lemma then_do_Inr [simp]: "then_do (Inr v) f = f v"
  by (simp add: then_do_def)

lemma then_do_Inl [simp]: "then_do (Inl e) f = Inl e"
  by (simp add: then_do_def)

lemma then_do_eq_Inr: "(then_do x f = Inr y) = (\<exists>v. x = Inr v \<and> f v = Inr y)"
  by (cases x) simp_all

lemma for_each_append:
  "for_each f (xs @ ys) s = then_do (for_each f xs s) (for_each f ys)"
proof (induction xs arbitrary: s)
  case Nil
  show ?case by simp
next
  case (Cons x xs)
  show ?case by (cases "f x s") (simp_all add: Cons.IH)
qed

lemma for_each_concat:
  "for_each (\<lambda>xs. for_each f xs) xss s = for_each f (concat xss) s"
proof (induction xss arbitrary: s)
  case Nil
  show ?case by simp
next
  case (Cons xs xss)
  show ?case
    by (cases "for_each f xs s") (simp_all add: for_each_append Cons.IH)
qed

lemma run_batched_eq: "run_batched statement rows g = for_each statement rows g"
  by (simp add: run_batched_def for_each_concat concat_chunk)

text \<open>A statement that either fails on a row or applies a pure effect.\<close>

text \<open>
  A statement that, for each record, either raises or applies an effect that does not
  change which records raise: the loop succeeds exactly when no record raises, and
  then applies the effects in order.
\<close>

lemma for_each_pure:
  assumes shape: "\<And>r g g'. (statement r g = Inr g') = (ok g r \<and> g' = eff r g)"
    and stable: "\<And>r r' g. ok (eff r' g) r = ok g r"
  shows "(for_each statement rs g = Inr g') =
           ((\<forall>r \<in> set rs. ok g r) \<and> g' = fold eff rs g)"
proof (induction rs arbitrary: g)
  case Nil
  show ?case by auto
next
  case (Cons r rs)
  have "(for_each statement (r # rs) g = Inr g') =
          (ok g r \<and> for_each statement rs (eff r g) = Inr g')"
    by (simp add: then_do_eq_Inr shape)
  also have "\<dots> = (ok g r \<and> (\<forall>r' \<in> set rs. ok (eff r g) r') \<and> g' = fold eff rs (eff r g))"
    by (simp add: Cons.IH)
  finally show ?case by (simp add: stable)
qed

subsection \<open>Writes addressed by a key\<close>

text \<open>
  \<open>point_fold key W rs m\<close> applies, for each record \<open>r\<close> in order, the write
  \<open>W r\<close> to the entry \<open>key r\<close> of \<open>m\<close>. When a later write to a key makes an
  earlier one to the same key irrelevant (\<open>absorbing\<close>), the last record of a key
  decides its entry.
\<close>

lemma find_SomeD: "find P xs = Some x \<Longrightarrow> P x \<and> x \<in> set xs"
  by (induction xs) (auto split: if_splits)

definition point_fold :: "('r \<Rightarrow> 'k) \<Rightarrow> ('r \<Rightarrow> 'v \<Rightarrow> 'v) \<Rightarrow> 'r list \<Rightarrow> ('k \<Rightarrow> 'v) \<Rightarrow> ('k \<Rightarrow> 'v)" where
  "point_fold key W rs m = fold (\<lambda>r m. m(key r := W r (m (key r)))) rs m"

lemma point_fold_Nil [simp]: "point_fold key W [] m = m"
  by (simp add: point_fold_def)

lemma point_fold_Cons:
  "point_fold key W (r # rs) m = point_fold key W rs (m(key r := W r (m (key r))))"
  by (simp add: point_fold_def)

lemma point_fold_snoc:
  "point_fold key W (rs @ [r]) m =
     (point_fold key W rs m)(key r := W r (point_fold key W rs m (key r)))"
  by (simp add: point_fold_def)

lemma point_fold_other:
  "k \<notin> key ` set rs \<Longrightarrow> point_fold key W rs m k = m k"
proof (induction rs arbitrary: m)
  case Nil
  show ?case by simp
next
  case (Cons r rs)
  then have "point_fold key W rs (m(key r := W r (m (key r)))) k =
             (m(key r := W r (m (key r)))) k"
    by simp
  then show ?case using Cons.prems by (simp add: point_fold_Cons)
qed

lemma point_fold_id:
  "\<forall>r \<in> set rs. \<forall>x. W r x = x \<Longrightarrow> point_fold key W rs m = m"
proof (induction rs arbitrary: m)
  case Nil
  show ?case by simp
next
  case (Cons r rs)
  have "m(key r := W r (m (key r))) = m"
    using Cons.prems by simp
  then show ?case using Cons by (simp add: point_fold_Cons)
qed

lemma point_fold_local:
  "m k = m' k \<Longrightarrow> point_fold key W rs m k = point_fold key W rs m' k"
proof (induction rs arbitrary: m m')
  case Nil
  then show ?case by simp
next
  case (Cons r rs)
  have "(m(key r := W r (m (key r)))) k = (m'(key r := W r (m' (key r)))) k"
    using Cons.prems by (cases "k = key r") simp_all
  then show ?case
    unfolding point_fold_Cons by (rule Cons.IH)
qed

definition absorbing :: "('r \<Rightarrow> 'k) \<Rightarrow> ('r \<Rightarrow> 'v \<Rightarrow> 'v) \<Rightarrow> bool" where
  "absorbing key W = (\<forall>r r' x. key r = key r' \<longrightarrow> W r (W r' x) = W r x)"

lemma point_fold_last:
  assumes "absorbing key W"
  shows "point_fold key W rs m k =
           (case find (\<lambda>r. key r = k) (rev rs) of None \<Rightarrow> m k | Some r \<Rightarrow> W r (m k))"
proof (induction rs rule: rev_induct)
  case Nil
  show ?case by simp
next
  case (snoc r rs)
  show ?case
  proof (cases "key r = k")
    case True
    have "W r (point_fold key W rs m k) = W r (m k)"
    proof (cases "find (\<lambda>r. key r = k) (rev rs)")
      case None
      then show ?thesis using snoc.IH by simp
    next
      case (Some r')
      then have "key r' = k" by (auto simp: find_Some_iff)
      then show ?thesis
        using snoc.IH Some assms True by (simp add: absorbing_def)
    qed
    then show ?thesis using True by (simp add: point_fold_snoc)
  next
    case False
    then show ?thesis using snoc.IH by (simp add: point_fold_snoc)
  qed
qed

lemma point_fold_replay:
  assumes "absorbing key W"
    and "\<And>r. r \<in> set rs \<Longrightarrow> h (key r) = point_fold key W rs m (key r)"
  shows "point_fold key W rs h = h"
proof
  fix k
  show "point_fold key W rs h k = h k"
  proof (cases "find (\<lambda>r. key r = k) (rev rs)")
    case None
    then show ?thesis by (simp add: point_fold_last [OF assms(1)])
  next
    case (Some r)
    then have r: "key r = k" "r \<in> set rs"
      using find_SomeD [of "\<lambda>r. key r = k" "rev rs" r] by simp_all
    have hk: "h k = W r (m k)"
      using assms(2) [OF r(2)] r(1) Some by (simp add: point_fold_last [OF assms(1)])
    have "point_fold key W rs h k = W r (h k)"
      using Some by (simp add: point_fold_last [OF assms(1)])
    also have "\<dots> = W r (W r (m k))" by (simp add: hk)
    also have "\<dots> = W r (m k)" using assms(1) by (simp add: absorbing_def)
    finally show ?thesis by (simp add: hk)
  qed
qed

lemma point_fold_permuted:
  assumes "mset rs' = mset rs" and "distinct (map key rs)"
  shows "point_fold key W rs' m = point_fold key W rs m"
proof -
  let ?f = "\<lambda>r m. m(key r := W r (m (key r)))"
  have inj: "inj_on key (set rs)" and "distinct rs"
    using assms(2) by (simp_all add: distinct_map)
  have comm: "?f x \<circ> ?f y = ?f y \<circ> ?f x" if "x \<in> set rs" "y \<in> set rs" for x y
  proof (cases "x = y")
    case True
    then show ?thesis by simp
  next
    case False
    then have "key x \<noteq> key y" using inj that by (auto dest: inj_onD)
    then show ?thesis by (auto simp: fun_eq_iff)
  qed
  have "fold ?f rs = fold ?f rs'"
    by (rule fold_multiset_equiv) (use comm assms(1) in auto)
  then show ?thesis by (simp add: point_fold_def)
qed

subsection \<open>The shape shared by the six statements\<close>

text \<open>
  For one record, each statement raises or does two writes: one to the node
  \<open>nk r\<close>, and, when \<open>guard\<close> holds (the \<^verbatim>\<open>MATCH\<close> clauses find their
  nodes), one to the list of relationships \<open>ek r\<close>. \<open>implements\<close> says that a
  statement has this shape, with writes that are absorbing and with conditions that
  no record of the same statement changes.
\<close>

definition upsert ::
  "('r \<Rightarrow> node_key) \<Rightarrow> ('r \<Rightarrow> props option \<Rightarrow> props option) \<Rightarrow> (graph \<Rightarrow> 'r \<Rightarrow> bool) \<Rightarrow>
   ('r \<Rightarrow> edge_key) \<Rightarrow> ('r \<Rightarrow> props list \<Rightarrow> props list) \<Rightarrow> 'r \<Rightarrow> graph \<Rightarrow> graph" where
  "upsert nk NW guard ek EW r g =
     g\<lparr>nodes := (nodes g)(nk r := NW r (nodes g (nk r))),
       edges := (if guard g r then (edges g)(ek r := EW r (edges g (ek r))) else edges g)\<rparr>"

definition implements ::
  "('r \<Rightarrow> graph \<Rightarrow> exn + graph) \<Rightarrow> (graph \<Rightarrow> 'r \<Rightarrow> bool) \<Rightarrow>
   ('r \<Rightarrow> node_key) \<Rightarrow> ('r \<Rightarrow> props option \<Rightarrow> props option) \<Rightarrow> (graph \<Rightarrow> 'r \<Rightarrow> bool) \<Rightarrow>
   ('r \<Rightarrow> edge_key) \<Rightarrow> ('r \<Rightarrow> props list \<Rightarrow> props list) \<Rightarrow> bool" where
  "implements statement ok nk NW guard ek EW =
     ((\<forall>r g g'. (statement r g = Inr g') = (ok g r \<and> g' = upsert nk NW guard ek EW r g)) \<and>
      (\<forall>r r' g. ok (upsert nk NW guard ek EW r' g) r = ok g r) \<and>
      (\<forall>r r' g. guard (upsert nk NW guard ek EW r' g) r = guard g r) \<and>
      absorbing nk NW \<and> absorbing ek EW)"

lemma fold_upsert:
  assumes "\<And>r r' g. guard (upsert nk NW guard ek EW r' g) r = guard g r"
  shows "fold (upsert nk NW guard ek EW) rs g =
           g\<lparr>nodes := point_fold nk NW rs (nodes g),
             edges := point_fold ek EW (filter (guard g) rs) (edges g)\<rparr>"
proof (induction rs arbitrary: g)
  case Nil
  show ?case by simp
next
  case (Cons r rs)
  let ?g = "upsert nk NW guard ek EW r g"
  have st: "guard ?g = guard g" using assms by (intro ext) simp
  have "fold (upsert nk NW guard ek EW) (r # rs) g =
          ?g\<lparr>nodes := point_fold nk NW rs (nodes ?g),
             edges := point_fold ek EW (filter (guard g) rs) (edges ?g)\<rparr>"
    by (simp add: Cons.IH st)
  also have "\<dots> = g\<lparr>nodes := point_fold nk NW (r # rs) (nodes g),
             edges := point_fold ek EW (filter (guard g) (r # rs)) (edges g)\<rparr>"
    by (simp add: upsert_def point_fold_Cons)
  finally show ?case .
qed

lemma step_result:
  assumes "implements statement ok nk NW guard ek EW"
  shows "(for_each statement rs g = Inr g') =
           ((\<forall>r \<in> set rs. ok g r) \<and>
            g' = g\<lparr>nodes := point_fold nk NW rs (nodes g),
                    edges := point_fold ek EW (filter (guard g) rs) (edges g)\<rparr>)"
proof -
  have shape: "\<And>r g g'. (statement r g = Inr g') = (ok g r \<and> g' = upsert nk NW guard ek EW r g)"
    and oks: "\<And>r r' g. ok (upsert nk NW guard ek EW r' g) r = ok g r"
    and gs: "\<And>r r' g. guard (upsert nk NW guard ek EW r' g) r = guard g r"
    using assms by (simp_all add: implements_def)
  show ?thesis
    unfolding for_each_pure [of statement ok "upsert nk NW guard ek EW", OF shape oks]
    by (simp add: fold_upsert [of guard nk NW ek EW, OF gs])
qed

lemma step_nodes_frame:
  assumes "implements statement ok nk NW guard ek EW"
    and "for_each statement rs g = Inr g'" and "k \<notin> nk ` set rs"
  shows "nodes g' k = nodes g k"
  using assms(2,3) by (simp add: step_result [OF assms(1)] point_fold_other)

lemma step_nodes_untouched:
  assumes "implements statement ok nk NW guard ek EW"
    and "for_each statement rs g = Inr g'" and "\<forall>r x. NW r x = x"
  shows "nodes g' = nodes g"
  using assms(2,3) by (simp add: step_result [OF assms(1)] point_fold_id)

lemma step_edges_frame:
  assumes "implements statement ok nk NW guard ek EW"
    and "for_each statement rs g = Inr g'" and "e \<notin> ek ` set rs"
  shows "edges g' e = edges g e"
proof -
  have "e \<notin> ek ` set (filter (guard g) rs)" using assms(3) by auto
  then show ?thesis
    using assms(2) by (simp add: step_result [OF assms(1)] point_fold_other)
qed

lemma step_edges_untouched:
  assumes "implements statement ok nk NW guard ek EW"
    and "for_each statement rs g = Inr g'" and "\<forall>g r. \<not> guard g r"
  shows "edges g' = edges g"
  using assms(2,3) by (simp add: step_result [OF assms(1)])

lemma step_replay:
  assumes impl: "implements statement ok nk NW guard ek EW"
    and run: "for_each statement rs g = Inr g1"
    and same_nodes: "\<And>r. r \<in> set rs \<Longrightarrow> nodes h (nk r) = nodes g1 (nk r)"
    and same_edges: "\<And>r. r \<in> set rs \<Longrightarrow> guard g r \<Longrightarrow> edges h (ek r) = edges g1 (ek r)"
    and same_ok: "\<And>r. r \<in> set rs \<Longrightarrow> ok h r = ok g r"
    and same_guard: "\<And>r. r \<in> set rs \<Longrightarrow> guard h r = guard g r"
  shows "for_each statement rs h = Inr h"
proof -
  have absN: "absorbing nk NW" and absE: "absorbing ek EW"
    using impl by (simp_all add: implements_def)
  have ok: "\<forall>r \<in> set rs. ok g r"
    and g1: "g1 = g\<lparr>nodes := point_fold nk NW rs (nodes g),
                    edges := point_fold ek EW (filter (guard g) rs) (edges g)\<rparr>"
    using run by (simp_all add: step_result [OF impl])
  have f: "filter (guard h) rs = filter (guard g) rs"
    using same_guard by (intro filter_cong) simp_all
  have n: "point_fold nk NW rs (nodes h) = nodes h"
  proof (rule point_fold_replay [OF absN])
    fix r assume "r \<in> set rs"
    then show "nodes h (nk r) = point_fold nk NW rs (nodes g) (nk r)"
      using same_nodes g1 by simp
  qed
  have e: "point_fold ek EW (filter (guard g) rs) (edges h) = edges h"
  proof (rule point_fold_replay [OF absE])
    fix r assume "r \<in> set (filter (guard g) rs)"
    then show "edges h (ek r) = point_fold ek EW (filter (guard g) rs) (edges g) (ek r)"
      using same_edges g1 by simp
  qed
  have "\<forall>r \<in> set rs. ok h r" using ok same_ok by simp
  then show ?thesis
    by (simp add: step_result [OF impl] f n e)
qed

lemma step_permuted:
  assumes impl: "implements statement ok nk NW guard ek EW"
    and perm: "mset rs' = mset rs"
    and dn: "distinct (map nk rs) \<or> (\<forall>r x. NW r x = x)"
    and de: "distinct (map ek (filter (guard g) rs))"
  shows "(for_each statement rs' g = Inr g') = (for_each statement rs g = Inr g')"
proof -
  have s: "set rs' = set rs" using perm by (rule mset_eq_setD)
  have n: "point_fold nk NW rs' (nodes g) = point_fold nk NW rs (nodes g)"
    using dn
  proof
    assume "distinct (map nk rs)"
    then show ?thesis by (rule point_fold_permuted [OF perm])
  next
    assume "\<forall>r x. NW r x = x"
    then show ?thesis by (simp add: point_fold_id)
  qed
  have "mset (filter (guard g) rs') = mset (filter (guard g) rs)"
    using perm by simp
  then have e: "point_fold ek EW (filter (guard g) rs') (edges g) =
                point_fold ek EW (filter (guard g) rs) (edges g)"
    using de by (rule point_fold_permuted)
  show ?thesis
    by (simp add: step_result [OF impl] s n e)
qed

subsection \<open>The six statements have that shape\<close>

definition node_write :: "val \<Rightarrow> (props \<Rightarrow> props) \<Rightarrow> props option \<Rightarrow> props option" where
  "node_write k sets x = Some (sets (case x of None \<Rightarrow> no_props(''id'' := k) | Some ps \<Rightarrow> ps))"

definition ensure_edge :: "props list \<Rightarrow> props list" where
  "ensure_edge x = (if x = [] then [no_props] else x)"

definition or_null :: "val option \<Rightarrow> val" where
  "or_null x = (case x of None \<Rightarrow> VNull | Some v \<Rightarrow> v)"

definition no_guard :: "graph \<Rightarrow> row \<Rightarrow> bool" where
  "no_guard g r = False"

definition no_edge :: "row \<Rightarrow> edge_key" where
  "no_edge r = ([], ([], VNull), ([], VNull))"

definition keep :: "row \<Rightarrow> 'a \<Rightarrow> 'a" where
  "keep r x = x"

definition category_ok :: "graph \<Rightarrow> row \<Rightarrow> bool" where
  "category_ok g r = (field r ''id'' \<noteq> VNull)"

definition category_key :: "row \<Rightarrow> node_key" where
  "category_key r = (''Category'', field r ''id'')"

definition category_write :: "row \<Rightarrow> props option \<Rightarrow> props option" where
  "category_write r = node_write (field r ''id'') (\<lambda>ps. ps(''name'' := field r ''name''))"

lemma absorbing_keep: "absorbing key keep"
  by (simp add: absorbing_def keep_def)

lemma node_write_absorbs:
  "(\<And>ps. s (s' ps) = s ps) \<Longrightarrow> node_write k s (node_write k s' x) = node_write k s x"
  by (simp add: node_write_def)

lemma upsert_equality:
  "(g' = upsert nk NW guard ek EW r g) =
   (nodes g' = (nodes g)(nk r := NW r (nodes g (nk r))) \<and>
    edges g' = (if guard g r then (edges g)(ek r := EW r (edges g (ek r))) else edges g) \<and>
    graph.more g' = graph.more g)"
  by (cases g, cases g') (auto simp: upsert_def)

lemma category_implements:
  "implements category_row category_ok category_key category_write no_guard no_edge keep"
  unfolding implements_def
proof (intro conjI allI)
  fix r :: row and g g' :: graph
  show "(category_row r g = Inr g') =
        (category_ok g r \<and> g' = upsert category_key category_write no_guard no_edge keep r g)"
    by (cases g, cases g')
      (auto simp: category_row_def merge_node_def set_node_property_def upsert_def
        category_ok_def category_key_def category_write_def node_write_def no_guard_def
        split: option.splits)
next
  fix r r' :: row and g :: graph
  show "category_ok (upsert category_key category_write no_guard no_edge keep r' g) r =
        category_ok g r"
    by (simp add: category_ok_def)
  show "no_guard (upsert category_key category_write no_guard no_edge keep r' g) r =
        no_guard g r"
    by (simp add: no_guard_def)
next
  show "absorbing category_key category_write"
    by (simp add: absorbing_def category_key_def category_write_def node_write_absorbs)
  show "absorbing no_edge (keep :: row \<Rightarrow> props list \<Rightarrow> props list)"
    by (rule absorbing_keep)
qed


definition product_ok :: "builtins \<Rightarrow> graph \<Rightarrow> row \<Rightarrow> bool" where
  "product_ok E g r = (field r ''id'' \<noteq> VNull \<and> toFloat E (field r ''price'') \<noteq> None)"

definition product_key :: "row \<Rightarrow> node_key" where
  "product_key r = (''Product'', field r ''id'')"

definition product_write :: "builtins \<Rightarrow> row \<Rightarrow> props option \<Rightarrow> props option" where
  "product_write E r =
     node_write (field r ''id'')
       (\<lambda>ps. ps(''name'' := field r ''name'',
               ''price'' := or_null (toFloat E (field r ''price''))))"

definition product_guard :: "graph \<Rightarrow> row \<Rightarrow> bool" where
  "product_guard g r = match_node ''Category'' (field r ''category_id'') g"

definition product_edge :: "row \<Rightarrow> edge_key" where
  "product_edge r = (''IN_CATEGORY'', product_key r, (''Category'', field r ''category_id''))"

definition ensure :: "row \<Rightarrow> props list \<Rightarrow> props list" where
  "ensure r = ensure_edge"

lemma absorbing_ensure: "absorbing key ensure"
  by (simp add: absorbing_def ensure_def ensure_edge_def)

lemma product_implements:
  "implements (product_row E) (product_ok E) product_key (product_write E)
     product_guard product_edge ensure"
  unfolding implements_def
proof (intro conjI allI)
  fix r :: row and g g' :: graph
  show "(product_row E r g = Inr g') =
        (product_ok E g r \<and>
         g' = upsert product_key (product_write E) product_guard product_edge ensure r g)"
    by (cases g, cases g', cases "toFloat E (field r ''price'')")
      (auto simp: product_row_def merge_node_def set_node_property_def upsert_def
        product_ok_def product_key_def product_write_def node_write_def product_guard_def
        product_edge_def ensure_def ensure_edge_def match_node_def merge_edge_def
        evaluate_def or_null_def Let_def
        split: option.splits)
next
  fix r r' :: row and g :: graph
  show "product_ok E (upsert product_key (product_write E) product_guard product_edge ensure r' g) r =
        product_ok E g r"
    by (simp add: product_ok_def)
  show "product_guard (upsert product_key (product_write E) product_guard product_edge ensure r' g) r =
        product_guard g r"
    by (simp add: product_guard_def match_node_def upsert_def product_key_def)
next
  show "absorbing product_key (product_write E)"
    by (simp add: absorbing_def product_key_def product_write_def node_write_absorbs)
  show "absorbing product_edge ensure"
    by (rule absorbing_ensure)
qed


definition customer_ok :: "builtins \<Rightarrow> graph \<Rightarrow> row \<Rightarrow> bool" where
  "customer_ok E g r =
     (field r ''id'' \<noteq> VNull \<and> null_when_blank (date E) (field r ''join_date'') \<noteq> None)"

definition customer_key :: "row \<Rightarrow> node_key" where
  "customer_key r = (''Customer'', field r ''id'')"

definition customer_write :: "builtins \<Rightarrow> row \<Rightarrow> props option \<Rightarrow> props option" where
  "customer_write E r =
     node_write (field r ''id'')
       (\<lambda>ps. ps(''name'' := field r ''name'',
               ''join_date'' := or_null (null_when_blank (date E) (field r ''join_date''))))"

lemma customer_implements:
  "implements (customer_row E) (customer_ok E) customer_key (customer_write E)
     no_guard no_edge keep"
  unfolding implements_def
proof (intro conjI allI)
  fix r :: row and g g' :: graph
  show "(customer_row E r g = Inr g') =
        (customer_ok E g r \<and>
         g' = upsert customer_key (customer_write E) no_guard no_edge keep r g)"
    by (cases g, cases g', cases "null_when_blank (date E) (field r ''join_date'')")
      (auto simp: customer_row_def merge_node_def set_node_property_def upsert_def
        customer_ok_def customer_key_def customer_write_def node_write_def no_guard_def
        evaluate_def or_null_def Let_def
        split: option.splits)
next
  fix r r' :: row and g :: graph
  show "customer_ok E (upsert customer_key (customer_write E) no_guard no_edge keep r' g) r =
        customer_ok E g r"
    by (simp add: customer_ok_def)
  show "no_guard (upsert customer_key (customer_write E) no_guard no_edge keep r' g) r =
        no_guard g r"
    by (simp add: no_guard_def)
next
  show "absorbing customer_key (customer_write E)"
    by (simp add: absorbing_def customer_key_def customer_write_def node_write_absorbs)
  show "absorbing no_edge (keep :: row \<Rightarrow> props list \<Rightarrow> props list)"
    by (rule absorbing_keep)
qed

definition order_ok :: "builtins \<Rightarrow> graph \<Rightarrow> row \<Rightarrow> bool" where
  "order_ok E g r =
     (field r ''id'' \<noteq> VNull \<and> null_when_blank (datetime E) (field r ''ts'') \<noteq> None)"

definition order_key :: "row \<Rightarrow> node_key" where
  "order_key r = (''Order'', field r ''id'')"

definition order_write :: "builtins \<Rightarrow> row \<Rightarrow> props option \<Rightarrow> props option" where
  "order_write E r =
     node_write (field r ''id'')
       (\<lambda>ps. ps(''ts'' := or_null (null_when_blank (datetime E) (field r ''ts''))))"

definition order_guard :: "graph \<Rightarrow> row \<Rightarrow> bool" where
  "order_guard g r = match_node ''Customer'' (field r ''customer_id'') g"

definition order_edge :: "row \<Rightarrow> edge_key" where
  "order_edge r = (''PLACED'', (''Customer'', field r ''customer_id''), order_key r)"

lemma order_implements:
  "implements (order_row E) (order_ok E) order_key (order_write E)
     order_guard order_edge ensure"
  unfolding implements_def
proof (intro conjI allI)
  fix r :: row and g g' :: graph
  show "(order_row E r g = Inr g') =
        (order_ok E g r \<and>
         g' = upsert order_key (order_write E) order_guard order_edge ensure r g)"
    by (cases g, cases g', cases "null_when_blank (datetime E) (field r ''ts'')")
      (auto simp: order_row_def merge_node_def set_node_property_def upsert_def
        order_ok_def order_key_def order_write_def node_write_def order_guard_def
        order_edge_def ensure_def ensure_edge_def match_node_def merge_edge_def
        evaluate_def or_null_def Let_def
        split: option.splits)
next
  fix r r' :: row and g :: graph
  show "order_ok E (upsert order_key (order_write E) order_guard order_edge ensure r' g) r =
        order_ok E g r"
    by (simp add: order_ok_def)
  show "order_guard (upsert order_key (order_write E) order_guard order_edge ensure r' g) r =
        order_guard g r"
    by (simp add: order_guard_def match_node_def upsert_def order_key_def)
next
  show "absorbing order_key (order_write E)"
    by (simp add: absorbing_def order_key_def order_write_def node_write_absorbs)
  show "absorbing order_edge ensure"
    by (rule absorbing_ensure)
qed


definition write_edges :: "string \<Rightarrow> val \<Rightarrow> props list \<Rightarrow> props list" where
  "write_edges p v x = map (\<lambda>ps. ps(p := v)) (ensure_edge x)"

lemma write_edges_absorbs: "write_edges p v (write_edges p v' x) = write_edges p v x"
  by (simp add: write_edges_def ensure_edge_def)

definition untouched_node :: "row \<Rightarrow> node_key" where
  "untouched_node r = ([], VNull)"

definition item_guard :: "graph \<Rightarrow> row \<Rightarrow> bool" where
  "item_guard g r =
     (match_node ''Order'' (field r ''order_id'') g \<and>
      match_node ''Product'' (field r ''product_id'') g)"

definition item_ok :: "builtins \<Rightarrow> graph \<Rightarrow> row \<Rightarrow> bool" where
  "item_ok E g r = (item_guard g r \<longrightarrow> toInteger E (field r ''quantity'') \<noteq> None)"

definition item_edge :: "row \<Rightarrow> edge_key" where
  "item_edge r =
     (''CONTAINS'', (''Order'', field r ''order_id''), (''Product'', field r ''product_id''))"

definition item_write :: "builtins \<Rightarrow> row \<Rightarrow> props list \<Rightarrow> props list" where
  "item_write E r = write_edges ''quantity'' (or_null (toInteger E (field r ''quantity'')))"

lemma upsert_keep_nodes [simp]: "nodes (upsert nk keep guard ek EW r g) = nodes g"
  by (simp add: upsert_def keep_def)

lemma item_implements:
  "implements (order_item_row E) (item_ok E) untouched_node keep
     item_guard item_edge (item_write E)"
  unfolding implements_def
proof (intro conjI allI)
  fix r :: row and g g' :: graph
  show "(order_item_row E r g = Inr g') =
        (item_ok E g r \<and>
         g' = upsert untouched_node keep item_guard item_edge (item_write E) r g)"
    by (cases g, cases g', cases "toInteger E (field r ''quantity'')")
      (auto simp: order_item_row_def upsert_def keep_def item_ok_def item_guard_def
        item_edge_def item_write_def write_edges_def ensure_edge_def merge_edge_def
        set_edge_property_def evaluate_def or_null_def Let_def)
next
  fix r r' :: row and g :: graph
  show "item_guard (upsert untouched_node keep item_guard item_edge (item_write E) r' g) r =
        item_guard g r"
    by (simp add: item_guard_def match_node_def)
  then show "item_ok E (upsert untouched_node keep item_guard item_edge (item_write E) r' g) r =
        item_ok E g r"
    by (simp add: item_ok_def)
next
  show "absorbing untouched_node (keep :: row \<Rightarrow> props option \<Rightarrow> props option)"
    by (rule absorbing_keep)
  show "absorbing item_edge (item_write E)"
    by (simp add: absorbing_def item_write_def write_edges_absorbs)
qed

definition event_guard :: "graph \<Rightarrow> row \<Rightarrow> bool" where
  "event_guard g r =
     (match_node ''Customer'' (field r ''customer_id'') g \<and>
      match_node ''Product'' (field r ''product_id'') g)"

definition event_ok :: "builtins \<Rightarrow> graph \<Rightarrow> row \<Rightarrow> bool" where
  "event_ok E g r =
     (event_guard g r \<longrightarrow> null_when_blank (datetime E) (field r ''ts'') \<noteq> None)"

definition event_edge :: "string \<Rightarrow> row \<Rightarrow> edge_key" where
  "event_edge rel_type r =
     (rel_type, (''Customer'', field r ''customer_id''), (''Product'', field r ''product_id''))"

definition event_write :: "builtins \<Rightarrow> row \<Rightarrow> props list \<Rightarrow> props list" where
  "event_write E r =
     write_edges ''ts'' (or_null (null_when_blank (datetime E) (field r ''ts'')))"

lemma event_implements:
  "implements (event_row E rel_type) (event_ok E) untouched_node keep
     event_guard (event_edge rel_type) (event_write E)"
  unfolding implements_def
proof (intro conjI allI)
  fix r :: row and g g' :: graph
  show "(event_row E rel_type r g = Inr g') =
        (event_ok E g r \<and>
         g' = upsert untouched_node keep event_guard (event_edge rel_type) (event_write E) r g)"
    by (cases g, cases g', cases "null_when_blank (datetime E) (field r ''ts'')")
      (auto simp: event_row_def upsert_def keep_def event_ok_def event_guard_def
        event_edge_def event_write_def write_edges_def ensure_edge_def merge_edge_def
        set_edge_property_def evaluate_def or_null_def Let_def)
next
  fix r r' :: row and g :: graph
  show "event_guard (upsert untouched_node keep event_guard (event_edge rel_type) (event_write E) r' g) r =
        event_guard g r"
    by (simp add: event_guard_def match_node_def)
  then show "event_ok E (upsert untouched_node keep event_guard (event_edge rel_type) (event_write E) r' g) r =
        event_ok E g r"
    by (simp add: event_ok_def)
next
  show "absorbing untouched_node (keep :: row \<Rightarrow> props option \<Rightarrow> props option)"
    by (rule absorbing_keep)
  show "absorbing (event_edge rel_type) (event_write E)"
    by (simp add: absorbing_def event_write_def write_edges_absorbs)
qed

subsection \<open>What each step leaves alone, and what it does on a graph it has already written\<close>

lemma category_frame:
  assumes "run_batched category_row rs g = Inr g'"
  shows "edges g' = edges g" and "fst k \<noteq> ''Category'' \<Longrightarrow> nodes g' k = nodes g k"
proof -
  have r: "for_each category_row rs g = Inr g'" using assms by (simp add: run_batched_eq)
  show "edges g' = edges g"
    by (rule step_edges_untouched [OF category_implements r]) (simp add: no_guard_def)
  show "nodes g' k = nodes g k" if "fst k \<noteq> ''Category''"
    by (rule step_nodes_frame [OF category_implements r]) (use that in \<open>auto simp: category_key_def\<close>)
qed

lemma product_frame:
  assumes "run_batched (product_row E) rs g = Inr g'"
  shows "fst e \<noteq> ''IN_CATEGORY'' \<Longrightarrow> edges g' e = edges g e"
    and "fst k \<noteq> ''Product'' \<Longrightarrow> nodes g' k = nodes g k"
proof -
  have r: "for_each (product_row E) rs g = Inr g'" using assms by (simp add: run_batched_eq)
  show "edges g' e = edges g e" if "fst e \<noteq> ''IN_CATEGORY''"
    by (rule step_edges_frame [OF product_implements r]) (use that in \<open>auto simp: product_edge_def\<close>)
  show "nodes g' k = nodes g k" if "fst k \<noteq> ''Product''"
    by (rule step_nodes_frame [OF product_implements r]) (use that in \<open>auto simp: product_key_def\<close>)
qed

lemma customer_frame:
  assumes "run_batched (customer_row E) rs g = Inr g'"
  shows "edges g' = edges g" and "fst k \<noteq> ''Customer'' \<Longrightarrow> nodes g' k = nodes g k"
proof -
  have r: "for_each (customer_row E) rs g = Inr g'" using assms by (simp add: run_batched_eq)
  show "edges g' = edges g"
    by (rule step_edges_untouched [OF customer_implements r]) (simp add: no_guard_def)
  show "nodes g' k = nodes g k" if "fst k \<noteq> ''Customer''"
    by (rule step_nodes_frame [OF customer_implements r]) (use that in \<open>auto simp: customer_key_def\<close>)
qed

lemma order_frame:
  assumes "run_batched (order_row E) rs g = Inr g'"
  shows "fst e \<noteq> ''PLACED'' \<Longrightarrow> edges g' e = edges g e"
    and "fst k \<noteq> ''Order'' \<Longrightarrow> nodes g' k = nodes g k"
proof -
  have r: "for_each (order_row E) rs g = Inr g'" using assms by (simp add: run_batched_eq)
  show "edges g' e = edges g e" if "fst e \<noteq> ''PLACED''"
    by (rule step_edges_frame [OF order_implements r]) (use that in \<open>auto simp: order_edge_def\<close>)
  show "nodes g' k = nodes g k" if "fst k \<noteq> ''Order''"
    by (rule step_nodes_frame [OF order_implements r]) (use that in \<open>auto simp: order_key_def\<close>)
qed

lemma item_frame:
  assumes "run_batched (order_item_row E) rs g = Inr g'"
  shows "fst e \<noteq> ''CONTAINS'' \<Longrightarrow> edges g' e = edges g e" and "nodes g' = nodes g"
proof -
  have r: "for_each (order_item_row E) rs g = Inr g'" using assms by (simp add: run_batched_eq)
  show "edges g' e = edges g e" if "fst e \<noteq> ''CONTAINS''"
    by (rule step_edges_frame [OF item_implements r]) (use that in \<open>auto simp: item_edge_def\<close>)
  show "nodes g' = nodes g"
    by (rule step_nodes_untouched [OF item_implements r]) (simp add: keep_def)
qed

lemma event_frame:
  assumes "run_batched (event_row E rel_type) rs g = Inr g'"
  shows "fst e \<noteq> rel_type \<Longrightarrow> edges g' e = edges g e" and "nodes g' = nodes g"
proof -
  have r: "for_each (event_row E rel_type) rs g = Inr g'"
    using assms by (simp add: run_batched_eq)
  show "edges g' e = edges g e" if "fst e \<noteq> rel_type"
    by (rule step_edges_frame [OF event_implements r]) (use that in \<open>auto simp: event_edge_def\<close>)
  show "nodes g' = nodes g"
    by (rule step_nodes_untouched [OF event_implements r]) (simp add: keep_def)
qed

lemma category_replay:
  assumes "run_batched category_row rs g = Inr g1"
    and "\<And>k. fst k = ''Category'' \<Longrightarrow> nodes h k = nodes g1 k"
  shows "run_batched category_row rs h = Inr h"
  unfolding run_batched_eq
  by (rule step_replay [OF category_implements assms(1) [unfolded run_batched_eq]])
    (simp_all add: assms(2) category_key_def no_guard_def category_ok_def)

lemma customer_replay:
  assumes "run_batched (customer_row E) rs g = Inr g1"
    and "\<And>k. fst k = ''Customer'' \<Longrightarrow> nodes h k = nodes g1 k"
  shows "run_batched (customer_row E) rs h = Inr h"
  unfolding run_batched_eq
  by (rule step_replay [OF customer_implements assms(1) [unfolded run_batched_eq]])
    (simp_all add: assms(2) customer_key_def no_guard_def customer_ok_def)

lemma product_replay:
  assumes "run_batched (product_row E) rs g = Inr g1"
    and "\<And>k. fst k = ''Product'' \<Longrightarrow> nodes h k = nodes g1 k"
    and "\<And>e. fst e = ''IN_CATEGORY'' \<Longrightarrow> edges h e = edges g1 e"
    and "\<And>k. fst k = ''Category'' \<Longrightarrow> nodes h k = nodes g k"
  shows "run_batched (product_row E) rs h = Inr h"
  unfolding run_batched_eq
  by (rule step_replay [OF product_implements assms(1) [unfolded run_batched_eq]])
    (simp_all add: assms(2,3,4) product_key_def product_edge_def product_ok_def
      product_guard_def match_node_def)

lemma order_replay:
  assumes "run_batched (order_row E) rs g = Inr g1"
    and "\<And>k. fst k = ''Order'' \<Longrightarrow> nodes h k = nodes g1 k"
    and "\<And>e. fst e = ''PLACED'' \<Longrightarrow> edges h e = edges g1 e"
    and "\<And>k. fst k = ''Customer'' \<Longrightarrow> nodes h k = nodes g k"
  shows "run_batched (order_row E) rs h = Inr h"
  unfolding run_batched_eq
  by (rule step_replay [OF order_implements assms(1) [unfolded run_batched_eq]])
    (simp_all add: assms(2,3,4) order_key_def order_edge_def order_ok_def
      order_guard_def match_node_def)

lemma item_replay:
  assumes "run_batched (order_item_row E) rs g = Inr g1"
    and "nodes h = nodes g"
    and "\<And>e. fst e = ''CONTAINS'' \<Longrightarrow> edges h e = edges g1 e"
  shows "run_batched (order_item_row E) rs h = Inr h"
proof -
  have r: "for_each (order_item_row E) rs g = Inr g1"
    using assms(1) by (simp add: run_batched_eq)
  have n: "nodes g1 = nodes g"
    by (rule step_nodes_untouched [OF item_implements r]) (simp add: keep_def)
  show ?thesis
    unfolding run_batched_eq
    by (rule step_replay [OF item_implements r])
      (simp_all add: assms(2,3) n item_edge_def item_ok_def item_guard_def match_node_def)
qed

lemma event_replay:
  assumes "run_batched (event_row E rel_type) rs g = Inr g1"
    and "nodes h = nodes g"
    and "\<And>e. fst e = rel_type \<Longrightarrow> edges h e = edges g1 e"
  shows "run_batched (event_row E rel_type) rs h = Inr h"
proof -
  have r: "for_each (event_row E rel_type) rs g = Inr g1"
    using assms(1) by (simp add: run_batched_eq)
  have n: "nodes g1 = nodes g"
    by (rule step_nodes_untouched [OF event_implements r]) (simp add: keep_def)
  show ?thesis
    unfolding run_batched_eq
    by (rule step_replay [OF event_implements r])
      (simp_all add: assms(2,3) n event_edge_def event_ok_def event_guard_def match_node_def)
qed

subsection \<open>Replaying a load\<close>

lemma load_events_Inr:
  "(load_events E events g = Inr g') =
   (\<exists>g6 g7.
      run_batched (event_row E ''VIEWED'') (by_type events ''view'') g = Inr g6 \<and>
      run_batched (event_row E ''CLICKED'') (by_type events ''click'') g6 = Inr g7 \<and>
      run_batched (event_row E ''ADDED_TO_CART'') (by_type events ''add_to_cart'') g7 = Inr g')"
  by (simp add: load_events_def then_do_eq_Inr)

lemma load_graph_Inr:
  "(load_graph E tables g = Inr g') =
   (\<exists>cats prods custs orders items events g1 g2 g3 g4 g5.
      records_of tables ''categories'' = Inr cats \<and>
      run_batched category_row cats g = Inr g1 \<and>
      records_of tables ''products'' = Inr prods \<and>
      run_batched (product_row E) prods g1 = Inr g2 \<and>
      records_of tables ''customers'' = Inr custs \<and>
      run_batched (customer_row E) custs g2 = Inr g3 \<and>
      records_of tables ''orders'' = Inr orders \<and>
      run_batched (order_row E) orders g3 = Inr g4 \<and>
      records_of tables ''order_items'' = Inr items \<and>
      run_batched (order_item_row E) items g4 = Inr g5 \<and>
      records_of tables ''events'' = Inr events \<and>
      load_events E events g5 = Inr g')"
  unfolding load_graph_def then_do_eq_Inr by blast


lemma load_graph_replay:
  assumes "load_graph E tables g = Inr g'"
  shows "load_graph E tables g' = Inr g'"
proof -
  obtain cats prods custs orders items events g1 g2 g3 g4 g5 g6 g7 where
    t1: "records_of tables ''categories'' = Inr cats"
    and s1: "run_batched category_row cats g = Inr g1"
    and t2: "records_of tables ''products'' = Inr prods"
    and s2: "run_batched (product_row E) prods g1 = Inr g2"
    and t3: "records_of tables ''customers'' = Inr custs"
    and s3: "run_batched (customer_row E) custs g2 = Inr g3"
    and t4: "records_of tables ''orders'' = Inr orders"
    and s4: "run_batched (order_row E) orders g3 = Inr g4"
    and t5: "records_of tables ''order_items'' = Inr items"
    and s5: "run_batched (order_item_row E) items g4 = Inr g5"
    and t6: "records_of tables ''events'' = Inr events"
    and s6: "run_batched (event_row E ''VIEWED'') (by_type events ''view'') g5 = Inr g6"
    and s7: "run_batched (event_row E ''CLICKED'') (by_type events ''click'') g6 = Inr g7"
    and s8: "run_batched (event_row E ''ADDED_TO_CART'') (by_type events ''add_to_cart'') g7 = Inr g'"
    using assms unfolding load_graph_Inr load_events_Inr by blast
  note f1 = category_frame [OF s1] and f2 = product_frame [OF s2]
    and f3 = customer_frame [OF s3] and f4 = order_frame [OF s4]
    and f5 = item_frame [OF s5] and f6 = event_frame [OF s6]
    and f7 = event_frame [OF s7] and f8 = event_frame [OF s8]
  have n5: "nodes g' = nodes g5" "nodes g' = nodes g4" "nodes g' = nodes g6" "nodes g' = nodes g7"
    by (simp_all add: f5(2) f6(2) f7(2) f8(2))
  have nCat: "nodes g' k = nodes g1 k" if "fst k = ''Category''" for k
    using that by (simp add: n5(2) f4(2) f3(2) f2(2))
  have nProd: "nodes g' k = nodes g2 k" if "fst k = ''Product''" for k
    using that by (simp add: n5(2) f4(2) f3(2))
  have nCust: "nodes g' k = nodes g3 k" if "fst k = ''Customer''" for k
    using that by (simp add: n5(2) f4(2))
  have nOrd: "nodes g' k = nodes g4 k" if "fst k = ''Order''" for k
    by (simp add: n5(2))
  have eCat: "edges g' e = edges g2 e" if "fst e = ''IN_CATEGORY''" for e
    using that by (simp add: f8(1) f7(1) f6(1) f5(1) f4(1) f3(1))
  have ePla: "edges g' e = edges g4 e" if "fst e = ''PLACED''" for e
    using that by (simp add: f8(1) f7(1) f6(1) f5(1))
  have eCon: "edges g' e = edges g5 e" if "fst e = ''CONTAINS''" for e
    using that by (simp add: f8(1) f7(1) f6(1))
  have eVie: "edges g' e = edges g6 e" if "fst e = ''VIEWED''" for e
    using that by (simp add: f8(1) f7(1))
  have eCli: "edges g' e = edges g7 e" if "fst e = ''CLICKED''" for e
    using that by (simp add: f8(1))
  have r1: "run_batched category_row cats g' = Inr g'"
    by (rule category_replay [OF s1]) (rule nCat)
  have r2: "run_batched (product_row E) prods g' = Inr g'"
    by (rule product_replay [OF s2]) (simp_all add: nProd eCat nCat)
  have r3: "run_batched (customer_row E) custs g' = Inr g'"
    by (rule customer_replay [OF s3]) (rule nCust)
  have r4: "run_batched (order_row E) orders g' = Inr g'"
    by (rule order_replay [OF s4]) (simp_all add: nOrd ePla nCust)
  have r5: "run_batched (order_item_row E) items g' = Inr g'"
    by (rule item_replay [OF s5]) (simp_all add: n5(2) eCon)
  have r6: "run_batched (event_row E ''VIEWED'') (by_type events ''view'') g' = Inr g'"
    by (rule event_replay [OF s6]) (simp_all add: n5(1) eVie)
  have r7: "run_batched (event_row E ''CLICKED'') (by_type events ''click'') g' = Inr g'"
    by (rule event_replay [OF s7]) (simp_all add: n5(3) eCli)
  have r8: "run_batched (event_row E ''ADDED_TO_CART'') (by_type events ''add_to_cart'') g' = Inr g'"
    by (rule event_replay [OF s8]) (simp_all add: n5(4))
  show ?thesis
    unfolding load_graph_Inr load_events_Inr
    using t1 t2 t3 t4 t5 t6 r1 r2 r3 r4 r5 r6 r7 r8 by blast
qed

lemma point_fold_invariant:
  assumes "\<And>r x. P x \<Longrightarrow> P (W r x)" and "P (m k)"
  shows "P (point_fold key W rs m k)"
  using assms(2)
proof (induction rs arbitrary: m)
  case Nil
  then show ?case by simp
next
  case (Cons r rs)
  have "P ((m(key r := W r (m (key r)))) k)"
    using Cons.prems assms(1) by (cases "k = key r") simp_all
  then show ?case
    unfolding point_fold_Cons by (rule Cons.IH)
qed

lemma step_edges_invariant:
  assumes "implements statement ok nk NW guard ek EW"
    and "\<And>r x. P x \<Longrightarrow> P (EW r x)"
    and "for_each statement rs g = Inr g'" and "P (edges g e)"
  shows "P (edges g' e)"
proof -
  have "edges g' = point_fold ek EW (filter (guard g) rs) (edges g)"
    using assms(3) by (simp add: step_result [OF assms(1)])
  then show ?thesis
    using point_fold_invariant [of P EW "edges g" e ek "filter (guard g) rs"] assms(2,4)
    by simp
qed

definition no_duplicate :: "nat \<Rightarrow> props list \<Rightarrow> bool" where
  "no_duplicate n x = (length x \<le> max 1 n)"

lemma no_duplicate_writes:
  "no_duplicate n x \<Longrightarrow> no_duplicate n (ensure r x)"
  "no_duplicate n x \<Longrightarrow> no_duplicate n (item_write E r x)"
  "no_duplicate n x \<Longrightarrow> no_duplicate n (event_write E r x)"
  by (auto simp: no_duplicate_def ensure_def ensure_edge_def item_write_def event_write_def
      write_edges_def)

lemma load_graph_no_duplicate:
  assumes "load_graph E tables g = Inr g'"
  shows "length (edges g' e) \<le> max 1 (length (edges g e))"
proof -
  obtain cats prods custs orders items events g1 g2 g3 g4 g5 g6 g7 where
    s1: "run_batched category_row cats g = Inr g1"
    and s2: "run_batched (product_row E) prods g1 = Inr g2"
    and s3: "run_batched (customer_row E) custs g2 = Inr g3"
    and s4: "run_batched (order_row E) orders g3 = Inr g4"
    and s5: "run_batched (order_item_row E) items g4 = Inr g5"
    and s6: "run_batched (event_row E ''VIEWED'') (by_type events ''view'') g5 = Inr g6"
    and s7: "run_batched (event_row E ''CLICKED'') (by_type events ''click'') g6 = Inr g7"
    and s8: "run_batched (event_row E ''ADDED_TO_CART'') (by_type events ''add_to_cart'') g7 = Inr g'"
    using assms unfolding load_graph_Inr load_events_Inr by blast
  define n where "n = length (edges g e)"
  let ?P = "no_duplicate n"
  note inv = step_edges_invariant [where P = "no_duplicate n"]
  have p0: "?P (edges g e)" by (simp add: no_duplicate_def n_def)
  have p1: "?P (edges g1 e)" using p0 by (simp add: category_frame(1) [OF s1])
  have p2: "?P (edges g2 e)"
    by (rule inv [OF product_implements _ s2 [unfolded run_batched_eq] p1]) (rule no_duplicate_writes)
  have p3: "?P (edges g3 e)" using p2 by (simp add: customer_frame(1) [OF s3])
  have p4: "?P (edges g4 e)"
    by (rule inv [OF order_implements _ s4 [unfolded run_batched_eq] p3]) (rule no_duplicate_writes)
  have p5: "?P (edges g5 e)"
    by (rule inv [OF item_implements _ s5 [unfolded run_batched_eq] p4]) (rule no_duplicate_writes)
  have p6: "?P (edges g6 e)"
    by (rule inv [OF event_implements _ s6 [unfolded run_batched_eq] p5]) (rule no_duplicate_writes)
  have p7: "?P (edges g7 e)"
    by (rule inv [OF event_implements _ s7 [unfolded run_batched_eq] p6]) (rule no_duplicate_writes)
  have "?P (edges g' e)"
    by (rule inv [OF event_implements _ s8 [unfolded run_batched_eq] p7]) (rule no_duplicate_writes)
  then show ?thesis by (simp add: no_duplicate_def n_def)
qed

subsection \<open>Reordering the rows of a relation\<close>

lemma distinct_map_finer:
  assumes "distinct (map f xs)"
    and "\<And>x y. x \<in> set xs \<Longrightarrow> y \<in> set xs \<Longrightarrow> h x = h y \<Longrightarrow> f x = f y"
  shows "distinct (map h xs)"
proof -
  have d: "distinct xs" and i: "inj_on f (set xs)"
    using assms(1) by (simp_all add: distinct_map)
  have "inj_on h (set xs)"
  proof (rule inj_onI)
    fix x y assume "x \<in> set xs" "y \<in> set xs" "h x = h y"
    then show "x = y" using assms(2) i by (meson inj_onD)
  qed
  then show ?thesis using d by (simp add: distinct_map)
qed

lemma distinct_map_filter_finer:
  assumes "distinct (map f xs)"
    and "\<And>x y. x \<in> set xs \<Longrightarrow> y \<in> set xs \<Longrightarrow> P x \<Longrightarrow> P y \<Longrightarrow> h x = h y \<Longrightarrow> f x = f y"
  shows "distinct (map h (filter P xs))"
proof (rule distinct_map_finer [where f = f])
  show "distinct (map f (filter P xs))"
    using assms(1) by (rule distinct_map_filter)
  show "f x = f y" if "x \<in> set (filter P xs)" "y \<in> set (filter P xs)" "h x = h y" for x y
    using that assms(2) by simp
qed

lemma category_permuted:
  assumes "mset rs' = mset rs" and "distinct (map (\<lambda>r. field r ''id'') rs)"
  shows "(run_batched category_row rs' g = Inr g') = (run_batched category_row rs g = Inr g')"
  unfolding run_batched_eq
proof (rule step_permuted [OF category_implements assms(1)])
  have "distinct (map category_key rs)"
    by (rule distinct_map_finer [OF assms(2)]) (simp add: category_key_def)
  then show "distinct (map category_key rs) \<or> (\<forall>r x. category_write r x = x)"
    by (rule disjI1)
  show "distinct (map no_edge (filter (no_guard g) rs))"
    by (simp add: no_guard_def)
qed

lemma customer_permuted:
  assumes "mset rs' = mset rs" and "distinct (map (\<lambda>r. field r ''id'') rs)"
  shows "(run_batched (customer_row E) rs' g = Inr g') =
         (run_batched (customer_row E) rs g = Inr g')"
  unfolding run_batched_eq
proof (rule step_permuted [OF customer_implements assms(1)])
  have "distinct (map customer_key rs)"
    by (rule distinct_map_finer [OF assms(2)]) (simp add: customer_key_def)
  then show "distinct (map customer_key rs) \<or> (\<forall>r x. customer_write E r x = x)"
    by (rule disjI1)
  show "distinct (map no_edge (filter (no_guard g) rs))"
    by (simp add: no_guard_def)
qed

lemma product_permuted:
  assumes "mset rs' = mset rs" and "distinct (map (\<lambda>r. field r ''id'') rs)"
  shows "(run_batched (product_row E) rs' g = Inr g') =
         (run_batched (product_row E) rs g = Inr g')"
  unfolding run_batched_eq
proof (rule step_permuted [OF product_implements assms(1)])
  have "distinct (map product_key rs)"
    by (rule distinct_map_finer [OF assms(2)]) (simp add: product_key_def)
  then show "distinct (map product_key rs) \<or> (\<forall>r x. product_write E r x = x)"
    by (rule disjI1)
  show "distinct (map product_edge (filter (product_guard g) rs))"
    by (rule distinct_map_filter_finer [OF assms(2)])
      (simp add: product_edge_def product_key_def)
qed

lemma order_permuted:
  assumes "mset rs' = mset rs" and "distinct (map (\<lambda>r. field r ''id'') rs)"
  shows "(run_batched (order_row E) rs' g = Inr g') =
         (run_batched (order_row E) rs g = Inr g')"
  unfolding run_batched_eq
proof (rule step_permuted [OF order_implements assms(1)])
  have "distinct (map order_key rs)"
    by (rule distinct_map_finer [OF assms(2)]) (simp add: order_key_def)
  then show "distinct (map order_key rs) \<or> (\<forall>r x. order_write E r x = x)"
    by (rule disjI1)
  show "distinct (map order_edge (filter (order_guard g) rs))"
    by (rule distinct_map_filter_finer [OF assms(2)])
      (simp add: order_edge_def order_key_def)
qed

lemma item_permuted:
  assumes "mset rs' = mset rs"
    and "distinct (map (\<lambda>r. [field r ''order_id'', field r ''product_id'']) rs)"
  shows "(run_batched (order_item_row E) rs' g = Inr g') =
         (run_batched (order_item_row E) rs g = Inr g')"
  unfolding run_batched_eq
proof (rule step_permuted [OF item_implements assms(1)])
  show "distinct (map untouched_node rs) \<or> (\<forall>r x. keep r (x :: props option) = x)"
    by (simp add: keep_def)
  show "distinct (map item_edge (filter (item_guard g) rs))"
    by (rule distinct_map_filter_finer [OF assms(2)]) (simp add: item_edge_def)
qed

lemma event_permuted:
  assumes "mset evs' = mset evs"
    and "distinct (map (\<lambda>r. [field r ''customer_id'', field r ''product_id'',
                             field r ''event_type'']) evs)"
  shows "(run_batched (event_row E rel_type) (by_type evs' t) g = Inr g') =
         (run_batched (event_row E rel_type) (by_type evs t) g = Inr g')"
  unfolding run_batched_eq
proof (rule step_permuted [OF event_implements])
  show "mset (by_type evs' t) = mset (by_type evs t)"
    using assms(1) by (simp add: by_type_def)
  show "distinct (map untouched_node (by_type evs t)) \<or> (\<forall>r x. keep r (x :: props option) = x)"
    by (simp add: keep_def)
  have "distinct (map (event_edge rel_type)
          (filter (\<lambda>e. field e ''event_type'' = VStr t \<and> event_guard g e) evs))"
    by (rule distinct_map_filter_finer [OF assms(2)]) (simp add: event_edge_def)
  then show "distinct (map (event_edge rel_type) (filter (event_guard g) (by_type evs t)))"
    by (simp add: by_type_def)
qed

lemma load_events_permuted:
  assumes "mset evs' = mset evs"
    and "distinct (map (\<lambda>r. [field r ''customer_id'', field r ''product_id'',
                             field r ''event_type'']) evs)"
  shows "(load_events E evs' g = Inr g') = (load_events E evs g = Inr g')"
  unfolding load_events_Inr by (simp add: event_permuted [OF assms])

subsection \<open>Idempotency\<close>

text \<open>
  Claim C1. On any graph and any tables, when a load succeeds, loading the same tables
  again succeeds and returns the graph of the first load unchanged: the same nodes
  with the same properties and the same relationships with the same properties. The
  load also never leaves more than one relationship of a kind between two nodes that
  had none or one before it.
\<close>

theorem load_graph_idempotent:
  assumes "load_graph E tables g = Inr g'"
  shows "load_graph E tables g' = Inr g' \<and>
         (\<forall>e. length (edges g' e) \<le> max 1 (length (edges g e)))"
  using load_graph_replay [OF assms] load_graph_no_duplicate [OF assms] by simp

text \<open>
  A sample engine for the examples: the typed value a function builds from a value is
  written as a literal of the type (null stays null, \<^verbatim>\<open>toInteger\<close> keeps an
  integer, and the temporal functions raise on anything but a text). The sample
  tables are a shop with one category, two products (the second in a category that
  is not there), one customer, one order of one item, a view and an event of an
  unknown type.
\<close>

definition literal :: "string \<Rightarrow> val \<Rightarrow> val option" where
  "literal ty v = (case v of VNull \<Rightarrow> Some VNull | _ \<Rightarrow> Some (VTyped ty v))"

definition literal_of_text :: "string \<Rightarrow> val \<Rightarrow> val option" where
  "literal_of_text ty v =
     (case v of VNull \<Rightarrow> Some VNull | VStr s \<Rightarrow> Some (VTyped ty v) | _ \<Rightarrow> None)"

definition literal_engine :: builtins where
  "literal_engine =
     \<lparr>toFloat = literal ''float'',
      toInteger = (\<lambda>v. case v of VInt i \<Rightarrow> Some v | _ \<Rightarrow> literal ''integer'' v),
      date = literal_of_text ''date'',
      datetime = literal_of_text ''datetime''\<rparr>"

definition frame :: "string list \<Rightarrow> val list list \<Rightarrow> dataframe" where
  "frame cols cells = \<lparr>df_columns = cols, df_rows = map (\<lambda>vs. map_of (zip cols vs)) cells\<rparr>"

definition shop :: "string \<rightharpoonup> dataframe" where
  "shop =
     [''categories'' \<mapsto> frame [''id'', ''name''] [[VInt 10, VStr ''Books'']],
      ''products'' \<mapsto> frame [''id'', ''name'', ''category_id'', ''price'']
         [[VInt 1, VStr ''Novel'', VInt 10, VInt 12],
          [VInt 2, VStr ''Pen'', VInt 99, VInt 3]],
      ''customers'' \<mapsto> frame [''id'', ''name'', ''join_date'']
         [[VInt 7, VStr ''Ada'', VStr ''2023-03-05'']],
      ''orders'' \<mapsto> frame [''id'', ''customer_id'', ''ts'']
         [[VInt 100, VInt 7, VStr ''2023-03-05T14:30:00Z'']],
      ''order_items'' \<mapsto> frame [''order_id'', ''product_id'', ''quantity'']
         [[VInt 100, VInt 1, VInt 2]],
      ''events'' \<mapsto> frame [''customer_id'', ''product_id'', ''event_type'', ''ts'']
         [[VInt 7, VInt 1, VStr ''view'', VStr ''2023-03-05T14:30:00Z''],
          [VInt 7, VInt 2, VStr ''purchase'', VNull]]]"

definition succeeds :: "exn + 'a \<Rightarrow> bool" where
  "succeeds x = (case x of Inl e \<Rightarrow> False | Inr v \<Rightarrow> True)"

lemma succeedsD: "succeeds x \<Longrightarrow> \<exists>v. x = Inr v"
  by (cases x) (simp_all add: succeeds_def)

lemma shop_loads: "succeeds (load_graph literal_engine shop empty_graph)"
  by (simp add: load_graph_def load_events_def run_batched_eq records_of_def shop_def
      frame_def to_dict_records_def by_type_def field_def restrict_map_def
      category_row_def product_row_def customer_row_def order_row_def order_item_row_def
      event_row_def merge_node_def set_node_property_def match_node_def merge_edge_def
      set_edge_property_def null_when_blank_def evaluate_def literal_engine_def
      literal_def literal_of_text_def empty_graph_def succeeds_def Let_def)

theorem load_graph_idempotent_witness:
  "\<exists>g'. load_graph literal_engine shop empty_graph = Inr g' \<and>
         load_graph literal_engine shop g' = Inr g' \<and>
         (\<forall>e. length (edges g' e) \<le> max 1 (length (edges empty_graph e)))"
proof -
  obtain g' where g': "load_graph literal_engine shop empty_graph = Inr g'"
    using succeedsD [OF shop_loads] by blast
  show ?thesis
    using load_graph_idempotent [OF g'] g' by blast
qed

subsection \<open>Event routing\<close>














subsection \<open>Referential guard\<close>


























end
